theory Spec2Isabelle
  imports Main
begin

section \<open>The sync queue table: \<open>src/database/sync_queue.py\<close>\<close>

text \<open>
  A row of the table \<open>sync_queue\<close>. The column \<open>id\<close> is the integer primary key
  (named \<open>id_pk\<close> here, \<open>id\<close> being the identity function of HOL); \<open>status\<close> and
  \<open>operation\<close> are free strings in the source (\<open>String(20)\<close>) and stay strings;
  \<open>data\<close> is the JSON snapshot, kept opaque; \<open>retry_count\<close> has default 0 and
  \<open>error_message\<close>, \<open>synced_at\<close> are nullable. Timestamps are integers (microseconds,
  the resolution of \<open>datetime\<close>).
\<close>

type_synonym datetime = int
type_synonym json = string

record SyncQueue =
  id_pk :: int
  table_name :: string
  record_id :: string
  operation :: string
  data :: "json option"
  status :: string
  retry_count :: int
  error_message :: "string option"
  created_at :: datetime
  synced_at :: "datetime option"

text \<open>
  The content of the table is the list of its rows in the order in which the database
  hands them to a query that has no ORDER BY. The primary key makes the ids distinct.
\<close>

definition primary_key :: "SyncQueue list \<Rightarrow> bool" where
  "primary_key q = distinct (map id_pk q)"

text \<open>The statement \<open>UPDATE sync_queue SET ... WHERE id = i\<close> that a flush emits.\<close>

definition update_row :: "SyncQueue list \<Rightarrow> int \<Rightarrow> (SyncQueue \<Rightarrow> SyncQueue) \<Rightarrow> SyncQueue list" where
  "update_row q i f = map (\<lambda>r. if id_pk r = i then f r else r) q"

text \<open>\<open>SELECT ... WHERE id = i\<close>: the row with primary key \<open>i\<close>, if any.\<close>

definition get_row :: "SyncQueue list \<Rightarrow> int \<Rightarrow> SyncQueue option" where
  "get_row q i = find (\<lambda>r. id_pk r = i) q"

section \<open>SyncService: \<open>src/services/sync_service.py\<close>\<close>

datatype Client = Client

record SyncService =
  enabled :: bool
  supabase :: "Client option"

definition is_enabled :: "SyncService \<Rightarrow> bool" where
  "is_enabled svc = (enabled svc \<and> supabase svc \<noteq> None)"

subsection \<open>The environment of one batch\<close>

text \<open>
  What the remote request made for one item does: \<open>Rows n\<close> when \<open>execute()\<close>
  returns with \<open>len(result.data) = n\<close>, \<open>Raised e\<close> when the client raises \<open>e\<close>
  (network error, timeout, rejection).
\<close>

datatype remote_result = Rows nat | Raised string

text \<open>
  Everything outside the function that decides how one item is processed: whether each
  of the three \<open>db.commit()\<close> calls of the loop body raises (\<open>Some e\<close>) or not
  (\<open>None\<close>), what the remote request does, and what \<open>datetime.utcnow()\<close> returns.
\<close>

record attempt =
  commit_syncing :: "string option"
  execute :: remote_result
  utcnow :: datetime
  commit_outcome :: "string option"
  commit_handler :: "string option"

record batch_env =
  query_raises :: "string option"
  attempts :: "int \<Rightarrow> attempt"

text \<open>The dictionary \<open>stats\<close> of \<open>push_pending_changes\<close>, which has exactly these keys.\<close>

record sync_stats =
  pushed :: int
  failed :: int
  skipped :: int

definition zero_stats :: sync_stats where
  "zero_stats = \<lparr>pushed = 0, failed = 0, skipped = 0\<rparr>"

text \<open>
  The state threaded through a batch: the committed content of the table, the
  statistics, and two traces of the effects: the tables that earlier commits of this
  batch replaced (newest first) and the ids of the items handed to the remote client (in
  call order).
\<close>

record batch =
  rows :: "SyncQueue list"
  stats :: sync_stats
  commits :: "SyncQueue list list"
  calls :: "int list"

definition commit :: "SyncQueue list \<Rightarrow> batch \<Rightarrow> batch" where
  "commit q s = s\<lparr>commits := rows s # commits s, rows := q\<rparr>"

definition count_pushed :: "batch \<Rightarrow> batch" where
  "count_pushed s = s\<lparr>stats := (stats s)\<lparr>pushed := pushed (stats s) + 1\<rparr>\<rparr>"

definition count_failed :: "batch \<Rightarrow> batch" where
  "count_failed s = s\<lparr>stats := (stats s)\<lparr>failed := failed (stats s) + 1\<rparr>\<rparr>"

subsection \<open>\<open>_push_item\<close>\<close>

text \<open>
  Every exception of the client is caught here and turned into \<open>False\<close>; a delete
  succeeds whatever the remote returns; an operation other than the three known ones
  gives \<open>False\<close>.
\<close>

definition push_item :: "remote_result \<Rightarrow> SyncQueue \<Rightarrow> bool" where
  "push_item res item =
     (case res of
        Raised e \<Rightarrow> False
      | Rows n \<Rightarrow>
          if operation item = ''create'' then 0 < n
          else if operation item = ''update'' then 0 < n
          else if operation item = ''delete'' then True
          else False)"

subsection \<open>\<open>push_pending_changes\<close>\<close>

text \<open>
  The query \<open>filter(SyncQueue.status == "pending").limit(limit).all()\<close>: the rows
  with status pending, in the order of the scan (there is no ORDER BY), cut after
  \<open>limit\<close> rows. The limit is a number of rows; every caller in the repository uses
  the default 100, and what a database does with a negative LIMIT is not modelled.
\<close>

definition select_pending :: "SyncQueue list \<Rightarrow> nat \<Rightarrow> SyncQueue list" where
  "select_pending q limit = take limit (filter (\<lambda>r. status r = ''pending'') q)"

definition mark_syncing :: "SyncQueue \<Rightarrow> SyncQueue" where
  "mark_syncing r = r\<lparr>status := ''syncing''\<rparr>"

definition mark_synced :: "datetime \<Rightarrow> SyncQueue \<Rightarrow> SyncQueue" where
  "mark_synced now r = r\<lparr>status := ''synced'', synced_at := Some now\<rparr>"

definition mark_failed :: "SyncQueue \<Rightarrow> SyncQueue" where
  "mark_failed r = r\<lparr>status := ''failed'', retry_count := retry_count r + 1\<rparr>"

definition mark_error :: "string \<Rightarrow> SyncQueue \<Rightarrow> SyncQueue" where
  "mark_error e r = r\<lparr>status := ''failed'', retry_count := retry_count r + 1,
                       error_message := Some e\<rparr>"

text \<open>
  The handler of the loop body (\<open>except Exception as e\<close>): the rollback discards the
  uncommitted changes of the item, so the three assignments act on the committed row;
  the failure is counted; the commit of the handler may raise in turn, and then the
  exception leaves the loop (\<open>Inl\<close>) with nothing more written.
\<close>

definition handler :: "attempt \<Rightarrow> string \<Rightarrow> SyncQueue \<Rightarrow> batch \<Rightarrow> (string \<times> batch) + batch" where
  "handler a e item s =
     (let s1 = count_failed s in
      case commit_handler a of
        None \<Rightarrow> Inr (commit (update_row (rows s1) (id_pk item) (mark_error e)) s1)
      | Some e' \<Rightarrow> Inl (e', s1))"

text \<open>
  The loop body for one item. After each commit the attributes of the item are
  reloaded from its row, so every assignment is an update of the committed row.
\<close>

definition process_item :: "attempt \<Rightarrow> SyncQueue \<Rightarrow> batch \<Rightarrow> (string \<times> batch) + batch" where
  "process_item a item s =
     (case commit_syncing a of
        Some e \<Rightarrow> handler a e item s
      | None \<Rightarrow>
          (let s1 = commit (update_row (rows s) (id_pk item) mark_syncing) s;
               s2 = s1\<lparr>calls := calls s1 @ [id_pk item]\<rparr>;
               success = push_item (execute a) item;
               s3 = (if success then count_pushed s2 else count_failed s2);
               q3 = update_row (rows s3) (id_pk item)
                      (if success then mark_synced (utcnow a) else mark_failed)
           in case commit_outcome a of
                None \<Rightarrow> Inr (commit q3 s3)
              | Some e \<Rightarrow> handler a e item s3))"

text \<open>
  The \<open>for\<close> loop. An exception that leaves the body reaches the outer \<open>except\<close>,
  which returns the statistics counted so far.
\<close>

fun push_loop :: "(int \<Rightarrow> attempt) \<Rightarrow> SyncQueue list \<Rightarrow> batch \<Rightarrow> batch" where
  "push_loop env [] s = s"
| "push_loop env (item # items) s =
     (case process_item (env (id_pk item)) item s of
        Inl (e, s') \<Rightarrow> s'
      | Inr s' \<Rightarrow> push_loop env items s')"

definition start_batch :: "SyncQueue list \<Rightarrow> batch" where
  "start_batch q = \<lparr>rows = q, stats = zero_stats, commits = [], calls = []\<rparr>"

text \<open>
  One execution of \<open>push_pending_changes\<close> with no other writer of the table between
  its query and its last commit; \<open>overlapped\<close> below interleaves two executions.
\<close>

definition push_pending_changes :: "SyncService \<Rightarrow> batch_env \<Rightarrow> nat \<Rightarrow> SyncQueue list \<Rightarrow> batch" where
  "push_pending_changes svc env limit q =
     (if \<not> is_enabled svc then start_batch q
      else case query_raises env of
             Some e \<Rightarrow> start_batch q
           | None \<Rightarrow> push_loop (attempts env) (select_pending q limit) (start_batch q))"

text \<open>
  Two overlapping executions of \<open>push_pending_changes\<close>, in the order that a forced
  \<open>sync\<close> arriving inside a running one gives: the outer execution has loaded
  \<open>pending_items\<close>; the inner execution runs from its query to its return; the outer
  one then runs its loop over the items it holds. The loop never reads the status of an
  item again: it assigns and updates the row by its id.
\<close>

definition overlapped :: "SyncService \<Rightarrow> batch_env \<Rightarrow> batch_env \<Rightarrow> nat \<Rightarrow> SyncQueue list \<Rightarrow> batch" where
  "overlapped svc env_inner env_outer limit q =
     (if \<not> is_enabled svc then start_batch q
      else case query_raises env_outer of
             Some e \<Rightarrow> start_batch q
           | None \<Rightarrow>
               (let pending_items = select_pending q limit;
                    q_inner = rows (push_pending_changes svc env_inner limit q)
                in push_loop (attempts env_outer) pending_items (start_batch q_inner)))"

subsection \<open>\<open>add_to_queue\<close>\<close>

text \<open>
  The environment of one capture: the clock, and whether the commit of the session that
  \<open>add_to_queue\<close> opens for itself raises.
\<close>

record capture_env =
  capture_now :: datetime
  capture_commit :: "string option"

text \<open>The integer primary key that the database assigns to an inserted row.\<close>

definition next_id :: "SyncQueue list \<Rightarrow> int" where
  "next_id q = (if q = [] then 1 else Max (set (map id_pk q)) + 1)"

text \<open>
  The row that \<open>SyncQueue(table_name=..., record_id=..., operation=..., data=...,
  status="pending")\<close> becomes at insert: the columns not given take their defaults.
\<close>

definition new_change ::
  "capture_env \<Rightarrow> string \<Rightarrow> string \<Rightarrow> string \<Rightarrow> json option \<Rightarrow> SyncQueue list \<Rightarrow> SyncQueue" where
  "new_change env tname rid op d q =
     \<lparr>id_pk = next_id q, table_name = tname, record_id = rid, operation = op, data = d,
      status = ''pending'', retry_count = 0, error_message = None,
      created_at = capture_now env, synced_at = None\<rparr>"

text \<open>
  \<open>add_to_queue\<close> opens a session of its own (\<open>SessionLocal()\<close>), adds the row and
  commits that session. Disabled: returns \<open>None\<close> and writes nothing. If the commit
  raises, the session is rolled back and the exception is raised again (\<open>Inl\<close>, the table
  staying as it was).
\<close>

definition add_to_queue ::
  "SyncService \<Rightarrow> capture_env \<Rightarrow> string \<Rightarrow> string \<Rightarrow> string \<Rightarrow> json option \<Rightarrow> SyncQueue list
     \<Rightarrow> string + (SyncQueue list \<times> SyncQueue option)" where
  "add_to_queue svc env tname rid op d q =
     (if \<not> is_enabled svc then Inr (q, None)
      else
        (let queue_item = new_change env tname rid op d q
         in case capture_commit env of
              None \<Rightarrow> Inr (q @ [queue_item], Some queue_item)
            | Some e \<Rightarrow> Inl e))"

subsection \<open>\<open>clear_synced_items\<close>\<close>

text \<open>
  Timestamps count microseconds, so a day is 86400000000. A row whose \<open>synced_at\<close> is
  NULL does not satisfy the comparison. If the delete or its commit raises, the session
  is rolled back and 0 is returned.
\<close>

record sweep_env =
  sweep_now :: datetime
  sweep_raises :: "string option"

definition clear_synced_items :: "sweep_env \<Rightarrow> int \<Rightarrow> SyncQueue list \<Rightarrow> SyncQueue list \<times> int" where
  "clear_synced_items env older_than_days q =
     (let cutoff_date = sweep_now env - older_than_days * 86400000000;
          old = (\<lambda>r. status r = ''synced'' \<and>
                      (case synced_at r of None \<Rightarrow> False | Some t \<Rightarrow> t < cutoff_date))
      in case sweep_raises env of
           None \<Rightarrow> (filter (\<lambda>r. \<not> old r) q, int (length (filter old q)))
         | Some e \<Rightarrow> (q, 0))"

subsection \<open>\<open>get_queue_status\<close>\<close>

text \<open>Python dictionaries with string keys; the values that occur are integers and booleans.\<close>

datatype pyval = PyInt int | PyBool bool

type_synonym pydict = "string \<rightharpoonup> pyval"

definition count_status :: "SyncQueue list \<Rightarrow> string \<Rightarrow> int" where
  "count_status q st = int (length (filter (\<lambda>r. status r = st) q))"

definition get_queue_status :: "SyncQueue list \<Rightarrow> pydict" where
  "get_queue_status q =
     (let pending = count_status q ''pending'';
          syncing = count_status q ''syncing'';
          failed_n = count_status q ''failed'';
          synced = count_status q ''synced''
      in [''pending'' \<mapsto> PyInt pending,
          ''syncing'' \<mapsto> PyInt syncing,
          ''failed'' \<mapsto> PyInt failed_n,
          ''synced'' \<mapsto> PyInt synced,
          ''total'' \<mapsto> PyInt (pending + syncing + failed_n + synced)])"


section \<open>SyncableMixin: \<open>src/database/mixins.py\<close>\<close>

text \<open>
  \<open>add_to_sync_queue\<close>: \<open>tname\<close> is \<open>self.__table__.name\<close>, \<open>rid\<close> is
  \<open>str(self.id)\<close> and \<open>snapshot\<close> is \<open>self.to_dict()\<close>; a delete carries no data.
  An exception of \<open>add_to_queue\<close> is not caught here.
\<close>

definition add_to_sync_queue ::
  "SyncService \<Rightarrow> capture_env \<Rightarrow> string \<Rightarrow> string \<Rightarrow> json \<Rightarrow> string \<Rightarrow> SyncQueue list
     \<Rightarrow> string + SyncQueue list" where
  "add_to_sync_queue svc env tname rid snapshot op q =
     (if is_enabled svc then
        (case add_to_queue svc env tname rid op
                (if op \<noteq> ''delete'' then Some snapshot else None) q of
           Inl e \<Rightarrow> Inl e
         | Inr (q', item) \<Rightarrow> Inr q')
      else Inr q)"

text \<open>
  Modelled from the spec: the domain write that calls the capture from inside its own
  transaction (the domain models, which would register the hooks \<open>after_insert\<close>,
  \<open>after_update\<close> and \<open>after_delete\<close> of the mixin, are not among the sources). The
  session of the domain service has written the row without committing it; the hook
  \<open>after_insert\<close> runs \<open>add_to_sync_queue\<close> with operation create; then the domain
  session commits, and \<open>domain_commit\<close> says whether that commit raises. An exception
  (of the hook or of the commit) leaves the domain table as it was, together with what
  the capture itself has committed.
\<close>

type_synonym domain_row = "string \<times> string \<times> json"

record local_db =
  domain_rows :: "domain_row list"
  sync_queue :: "SyncQueue list"

fun create_record ::
  "SyncService \<Rightarrow> capture_env \<Rightarrow> string option \<Rightarrow> domain_row \<Rightarrow> local_db
     \<Rightarrow> (string \<times> local_db) + local_db" where
  "create_record svc env domain_commit (tname, rid, snapshot) db =
     (case add_to_sync_queue svc env tname rid snapshot ''create'' (sync_queue db) of
        Inl e \<Rightarrow> Inl (e, db)
      | Inr q' \<Rightarrow>
          (case domain_commit of
             Some e \<Rightarrow> Inl (e, db\<lparr>sync_queue := q'\<rparr>)
           | None \<Rightarrow> Inr \<lparr>domain_rows = domain_rows db @ [(tname, rid, snapshot)],
                          sync_queue = q'\<rparr>))"

section \<open>SyncManager: \<open>src/services/sync_manager.py\<close>\<close>

record SyncManager =
  sync_service :: SyncService
  is_syncing :: bool





definition get_status :: "SyncManager \<Rightarrow> SyncQueue list \<Rightarrow> pydict" where
  "get_status m q =
     (if \<not> is_enabled (sync_service m) then [''enabled'' \<mapsto> PyBool False]
      else (get_queue_status q)(''enabled'' \<mapsto> PyBool True,
                                ''is_syncing'' \<mapsto> PyBool (is_syncing m)))"

subsection \<open>Interleaved triggers\<close>






section \<open>Notions used in the statements\<close>

text \<open>
  The edges of the status machine as the specification draws them, and the edges that
  the code has: one more, from pending straight to failed.
\<close>

definition spec_edge :: "string \<Rightarrow> string \<Rightarrow> bool" where
  "spec_edge s t =
     ((s = ''pending'' \<and> t = ''syncing'') \<or> (s = ''syncing'' \<and> t = ''synced'')
      \<or> (s = ''syncing'' \<and> t = ''failed''))"

definition code_edge :: "string \<Rightarrow> string \<Rightarrow> bool" where
  "code_edge s t = (spec_edge s t \<or> (s = ''pending'' \<and> t = ''failed''))"

text \<open>
  What every assignment to \<open>item.status\<close> in the loop body writes, whatever the row
  held before: syncing, synced or failed, never pending.
\<close>

definition written_edge :: "string \<Rightarrow> string \<Rightarrow> bool" where
  "written_edge s t = (t = ''syncing'' \<or> t = ''synced'' \<or> t = ''failed'')"

text \<open>
  One commit replaces the table \<open>q\<close> by \<open>q'\<close>: same rows by primary key, in the same
  places, and the status of each row stays or moves along an edge.
\<close>

definition table_step :: "(string \<Rightarrow> string \<Rightarrow> bool) \<Rightarrow> SyncQueue list \<Rightarrow> SyncQueue list \<Rightarrow> bool" where
  "table_step edge q q' =
     list_all2 (\<lambda>r r'. id_pk r' = id_pk r \<and> (status r' = status r \<or> edge (status r) (status r'))) q q'"

text \<open>The committed tables of a batch, oldest first, the last one being the current table.\<close>

definition history :: "batch \<Rightarrow> SyncQueue list list" where
  "history s = rev (rows s # commits s)"

text \<open>The two commits of the loop body that are not in the handler do not raise.\<close>

definition local_ok :: "attempt \<Rightarrow> bool" where
  "local_ok a = (commit_syncing a = None \<and> commit_outcome a = None)"

text \<open>
  What a loop body with \<open>local_ok\<close> makes of the row \<open>r\<close> of the item: the outcome
  depends on the remote result of this item alone.
\<close>

definition settle :: "attempt \<Rightarrow> SyncQueue \<Rightarrow> SyncQueue \<Rightarrow> SyncQueue" where
  "settle a item r =
     (if push_item (execute a) item then mark_synced (utcnow a) (mark_syncing r)
      else mark_failed (mark_syncing r))"

definition settle_all :: "(int \<Rightarrow> attempt) \<Rightarrow> SyncQueue list \<Rightarrow> SyncQueue \<Rightarrow> SyncQueue" where
  "settle_all env items r =
     (case find (\<lambda>it. id_pk it = id_pk r) items of
        None \<Rightarrow> r
      | Some it \<Rightarrow> settle (env (id_pk it)) it r)"

definition keeps_others :: "int set \<Rightarrow> (SyncQueue \<Rightarrow> SyncQueue) \<Rightarrow> bool" where
  "keeps_others ids g = ((\<forall>r. id_pk (g r) = id_pk r) \<and> (\<forall>r. id_pk r \<notin> ids \<longrightarrow> g r = r))"


section \<open>Concrete data\<close>

definition svc_on :: SyncService where
  "svc_on = \<lparr>enabled = True, supabase = Some Client\<rparr>"

definition svc_off :: SyncService where
  "svc_off = \<lparr>enabled = False, supabase = None\<rparr>"

definition alice :: SyncQueue where
  "alice = \<lparr>id_pk = 1, table_name = ''contacts'', record_id = ''42'', operation = ''create'',
             data = Some ''{name: Alice}'', status = ''pending'', retry_count = 0,
             error_message = None, created_at = 10, synced_at = None\<rparr>"

definition bob :: SyncQueue where
  "bob = \<lparr>id_pk = 2, table_name = ''contacts'', record_id = ''7'', operation = ''update'',
           data = Some ''{name: Bob}'', status = ''pending'', retry_count = 0,
           error_message = None, created_at = 20, synced_at = None\<rparr>"

text \<open>A pending row that carries the reason of an earlier failure.\<close>

definition carol :: SyncQueue where
  "carol = \<lparr>id_pk = 3, table_name = ''invoices'', record_id = ''9'', operation = ''update'',
             data = Some ''{total: 5}'', status = ''pending'', retry_count = 1,
             error_message = Some ''timeout'', created_at = 30, synced_at = None\<rparr>"

text \<open>A row that an earlier batch has marked failed.\<close>

definition dave :: SyncQueue where
  "dave = \<lparr>id_pk = 4, table_name = ''products'', record_id = ''11'', operation = ''create'',
            data = Some ''{sku: 11}'', status = ''failed'', retry_count = 1,
            error_message = None, created_at = 5, synced_at = None\<rparr>"

definition attempt_ok :: attempt where
  "attempt_ok = \<lparr>commit_syncing = None, execute = Rows 1, utcnow = 100,
                  commit_outcome = None, commit_handler = None\<rparr>"

definition env_ok :: batch_env where
  "env_ok = \<lparr>query_raises = None, attempts = (\<lambda>i. attempt_ok)\<rparr>"

text \<open>The remote raises a timeout for every item.\<close>

definition env_timeout :: batch_env where
  "env_timeout = \<lparr>query_raises = None,
                  attempts = (\<lambda>i. attempt_ok\<lparr>execute := Raised ''timeout''\<rparr>)\<rparr>"

text \<open>The remote raises for item 1 only.\<close>

definition env_first_fails :: batch_env where
  "env_first_fails = \<lparr>query_raises = None,
      attempts = (\<lambda>i. if i = 1 then attempt_ok\<lparr>execute := Raised ''timeout''\<rparr> else attempt_ok)\<rparr>"

text \<open>The commit that would publish the status syncing raises.\<close>

definition env_locked :: batch_env where
  "env_locked = \<lparr>query_raises = None,
      attempts = (\<lambda>i. attempt_ok\<lparr>commit_syncing := Some ''database is locked''\<rparr>)\<rparr>"

text \<open>For item 1 only, the commit that would publish the status syncing raises.\<close>

definition env_first_locked :: batch_env where
  "env_first_locked = \<lparr>query_raises = None,
      attempts = (\<lambda>i. if i = 1 then attempt_ok\<lparr>commit_syncing := Some ''database is locked''\<rparr>
                      else attempt_ok)\<rparr>"

definition capture_ok :: capture_env where
  "capture_ok = \<lparr>capture_now = 10, capture_commit = None\<rparr>"

text \<open>The remote answers every request with an empty result.\<close>

definition env_rejected :: batch_env where
  "env_rejected = \<lparr>query_raises = None,
                    attempts = (\<lambda>i. attempt_ok\<lparr>execute := Rows 0\<rparr>)\<rparr>"

definition empty_db :: local_db where
  "empty_db = \<lparr>domain_rows = [], sync_queue = []\<rparr>"

section \<open>Unfolding the model on concrete data\<close>

lemmas batch_defs = push_pending_changes_def select_pending_def start_batch_def zero_stats_def
  process_item_def handler_def commit_def count_pushed_def count_failed_def push_item_def
  update_row_def mark_syncing_def mark_synced_def mark_failed_def mark_error_def
  is_enabled_def Let_def

lemmas data_defs = svc_on_def svc_off_def alice_def bob_def carol_def dave_def attempt_ok_def env_ok_def
  env_timeout_def env_first_fails_def env_locked_def env_first_locked_def env_rejected_def capture_ok_def

section \<open>Statistics\<close>

lemma skipped_handler:
  "handler a e item s = Inr s' \<or> handler a e item s = Inl (e', s')
   \<Longrightarrow> skipped (stats s') = skipped (stats s)"
  by (auto simp: handler_def commit_def count_failed_def Let_def split: option.splits)

lemma skipped_process_item:
  "process_item a item s = Inr s' \<or> process_item a item s = Inl (e', s')
   \<Longrightarrow> skipped (stats s') = skipped (stats s)"
  unfolding process_item_def Let_def
  by (cases "commit_syncing a"; cases "commit_outcome a"; cases "push_item (execute a) item")
     (auto dest!: skipped_handler[OF disjI1] skipped_handler[OF disjI2]
           simp: commit_def count_failed_def count_pushed_def)

lemma skipped_push_loop: "skipped (stats (push_loop env items s)) = skipped (stats s)"
proof (induction items arbitrary: s)
  case Nil
  show ?case by simp
next
  case (Cons item items)
  show ?case
  proof (cases "process_item (env (id_pk item)) item s")
    case (Inl p)
    then obtain e s' where "process_item (env (id_pk item)) item s = Inl (e, s')"
      by (cases p) simp
    then show ?thesis using skipped_process_item[of "env (id_pk item)" item s s' e]
      by simp
  next
    case (Inr s')
    then show ?thesis using skipped_process_item[of "env (id_pk item)" item s s'] Cons.IH[of s']
      by simp
  qed
qed

section \<open>The selection\<close>

lemma select_pending_prefix:
  "filter (\<lambda>r. status r = ''pending'') q = select_pending q limit @ drop limit (filter (\<lambda>r. status r = ''pending'') q)"
  by (simp add: select_pending_def)

lemma select_pending_sorted:
  assumes "sorted_wrt (<) (map id_pk q)"
  shows "sorted_wrt (<) (map id_pk (select_pending q limit))"
proof -
  have "sorted_wrt (<) (map id_pk (filter (\<lambda>r. status r = ''pending'') q))"
    using assms by (simp add: sorted_wrt_map sorted_wrt_filter)
  then show ?thesis
    unfolding select_pending_def by (simp add: sorted_wrt_map sorted_wrt_take)
qed

lemma select_pending_no_skip:
  assumes srt: "sorted_wrt (<) (map id_pk q)"
    and r: "r \<in> set q" "status r = ''pending''"
    and s: "s \<in> set (select_pending q limit)"
    and lt: "id_pk r < id_pk s"
  shows "r \<in> set (select_pending q limit)"
proof (rule ccontr)
  assume nr: "r \<notin> set (select_pending q limit)"
  let ?p = "filter (\<lambda>r. status r = ''pending'') q"
  have split: "?p = select_pending q limit @ drop limit ?p"
    by (rule select_pending_prefix)
  have "r \<in> set ?p" using r by simp
  then have rd: "r \<in> set (drop limit ?p)"
    using nr split by (metis Un_iff set_append)
  have "sorted_wrt (<) (map id_pk ?p)"
    using srt by (simp add: sorted_wrt_map sorted_wrt_filter)
  then have "sorted_wrt (\<lambda>a b. id_pk a < id_pk b) (select_pending q limit @ drop limit ?p)"
    using split by (simp add: sorted_wrt_map)
  then have "id_pk s < id_pk r"
    using s rd by (simp add: sorted_wrt_append)
  then show False using lt by simp
qed

lemma no_pending_batch:
  assumes "\<forall>r\<in>set q. status r \<noteq> ''pending''"
  shows "push_pending_changes svc env limit q = start_batch q"
proof -
  have "filter (\<lambda>r. status r = ''pending'') q = []"
    using assms by (simp add: filter_empty_conv)
  then have "select_pending q limit = []"
    by (simp add: select_pending_def)
  then show ?thesis
    by (simp add: push_pending_changes_def split: option.splits)
qed

lemma select_pending_length:
  "length (select_pending q limit) = min limit (length (filter (\<lambda>r. status r = ''pending'') q))"
  by (simp add: select_pending_def min.commute)

section \<open>The loop of \<open>push_pending_changes\<close>\<close>

lemma id_pk_marks [simp]:
  "id_pk (mark_syncing r) = id_pk r" "id_pk (mark_synced t r) = id_pk r"
  "id_pk (mark_failed r) = id_pk r" "id_pk (mark_error e r) = id_pk r"
  by (simp_all add: mark_syncing_def mark_synced_def mark_failed_def mark_error_def)

lemma status_marks [simp]:
  "status (mark_syncing r) = ''syncing''" "status (mark_synced t r) = ''synced''"
  "status (mark_failed r) = ''failed''" "status (mark_error e r) = ''failed''"
  by (simp_all add: mark_syncing_def mark_synced_def mark_failed_def mark_error_def)

lemma table_step_update:
  assumes "\<forall>r\<in>set q. id_pk r = i \<longrightarrow> id_pk (f r) = i \<and> edge (status r) (status (f r))"
  shows "table_step edge q (update_row q i f)"
  using assms
  by (auto simp: table_step_def update_row_def list_all2_map2 list_all2_same)

lemma history_commit: "history (commit q s) = history s @ [q]"
  by (simp add: history_def commit_def)

lemma last_history: "last (history s) = rows s"
  by (simp add: history_def)

lemma history_nonempty: "history s \<noteq> []"
  by (simp add: history_def)

lemma successively_commit:
  "successively (table_step code_edge) (history s) \<Longrightarrow> table_step code_edge (rows s) q
   \<Longrightarrow> successively (table_step code_edge) (history (commit q s))"
  by (simp add: history_commit successively_append_iff last_history history_nonempty)

lemma rows_commit [simp]: "rows (commit q s) = q"
  by (simp add: commit_def)

lemma count_simps [simp]:
  "rows (count_failed s) = rows s" "rows (count_pushed s) = rows s"
  "history (count_failed s) = history s" "history (count_pushed s) = history s"
  "commits (count_failed s) = commits s" "commits (count_pushed s) = commits s"
  "calls (count_failed s) = calls s" "calls (count_pushed s) = calls s"
  by (simp_all add: count_failed_def count_pushed_def history_def)

lemma handler_history:
  assumes h: "successively (table_step code_edge) (history s)"
    and st: "\<forall>r\<in>set (rows s). id_pk r = id_pk item \<longrightarrow> status r = ''pending'' \<or> status r = ''syncing''"
    and res: "handler a e item s = Inr s' \<or> handler a e item s = Inl (e', s')"
  shows "successively (table_step code_edge) (history s')"
proof (cases "commit_handler a")
  case None
  have "table_step code_edge (rows s) (update_row (rows s) (id_pk item) (mark_error e))"
    using st by (intro table_step_update) (auto simp: code_edge_def spec_edge_def)
  then show ?thesis
    using None res h by (auto simp: handler_def Let_def intro!: successively_commit)
next
  case (Some x)
  then show ?thesis using res h by (auto simp: handler_def Let_def)
qed

lemma process_item_history:
  assumes h: "successively (table_step code_edge) (history s)"
    and st: "\<forall>r\<in>set (rows s). id_pk r = id_pk item \<longrightarrow> status r = ''pending''"
    and res: "process_item a item s = Inr s' \<or> process_item a item s = Inl (e', s')"
  shows "successively (table_step code_edge) (history s')"
proof (cases "commit_syncing a")
  case (Some e)
  then have "handler a e item s = Inr s' \<or> handler a e item s = Inl (e', s')"
    using res by (simp add: process_item_def)
  then show ?thesis using handler_history[OF h _ ] st by blast
next
  case None
  let ?i = "id_pk item"
  let ?q1 = "update_row (rows s) ?i mark_syncing"
  let ?s1 = "commit ?q1 s"
  let ?s2 = "?s1\<lparr>calls := calls ?s1 @ [?i]\<rparr>"
  let ?ok = "push_item (execute a) item"
  let ?s3 = "if ?ok then count_pushed ?s2 else count_failed ?s2"
  let ?f = "if ?ok then mark_synced (utcnow a) else mark_failed"
  have step1: "table_step code_edge (rows s) ?q1"
    using st by (intro table_step_update) (auto simp: code_edge_def spec_edge_def)
  have h1: "successively (table_step code_edge) (history ?s1)"
    using h step1 by (rule successively_commit)
  have hist3: "history ?s3 = history ?s1" and rows3: "rows ?s3 = ?q1"
    by (simp_all add: history_def)
  have h3: "successively (table_step code_edge) (history ?s3)"
    using h1 hist3 by simp
  have st3: "\<forall>r\<in>set (rows ?s3). id_pk r = ?i \<longrightarrow> status r = ''syncing''"
    unfolding rows3 by (auto simp: update_row_def)
  show ?thesis
  proof (cases "commit_outcome a")
    case None': None
    have step2: "table_step code_edge (rows ?s3) (update_row (rows ?s3) ?i ?f)"
      using st3 by (intro table_step_update) (auto simp: code_edge_def spec_edge_def)
    have "s' = commit (update_row (rows ?s3) ?i ?f) ?s3"
      using res None None' by (simp add: process_item_def Let_def)
    then show ?thesis using successively_commit[OF h3 step2] by simp
  next
    case (Some e)
    have "handler a e item ?s3 = Inr s' \<or> handler a e item ?s3 = Inl (e', s')"
      using res None Some by (simp add: process_item_def Let_def)
    then show ?thesis using handler_history[OF h3 _ ] st3 by blast
  qed
qed

lemma update_row_map:
  "update_row q i f = map (\<lambda>r. if id_pk r = i then f r else r) q"
  by (simp add: update_row_def)

lemma keeps_others_id: "keeps_others ids (\<lambda>r. r)"
  by (simp add: keeps_others_def)

lemma keeps_others_update:
  "\<forall>r. id_pk (f r) = id_pk r \<Longrightarrow> i \<in> ids \<Longrightarrow> keeps_others ids (\<lambda>r. if id_pk r = i then f r else r)"
  by (auto simp: keeps_others_def)

lemma keeps_others_comp:
  "keeps_others ids f \<Longrightarrow> keeps_others ids g \<Longrightarrow> keeps_others ids (g \<circ> f)"
  by (auto simp: keeps_others_def)

lemma keeps_others_mono:
  "keeps_others ids f \<Longrightarrow> ids \<subseteq> ids' \<Longrightarrow> keeps_others ids' f"
  by (auto simp: keeps_others_def)

lemma handler_map:
  assumes "handler a e item s = Inr s' \<or> handler a e item s = Inl (e', s')"
  shows "\<exists>g. rows s' = map g (rows s) \<and> keeps_others {id_pk item} g"
proof (cases "commit_handler a")
  case None
  then have "rows s' = map (\<lambda>r. if id_pk r = id_pk item then mark_error e r else r) (rows s)"
    using assms by (auto simp: handler_def Let_def update_row_map)
  moreover have "keeps_others {id_pk item} (\<lambda>r. if id_pk r = id_pk item then mark_error e r else r)"
    by (rule keeps_others_update) simp_all
  ultimately show ?thesis by blast
next
  case (Some x)
  then have "rows s' = map (\<lambda>r. r) (rows s)"
    using assms by (auto simp: handler_def Let_def)
  then show ?thesis using keeps_others_id by blast
qed

lemma process_item_map:
  assumes res: "process_item a item s = Inr s' \<or> process_item a item s = Inl (e', s')"
  shows "\<exists>g. rows s' = map g (rows s) \<and> keeps_others {id_pk item} g"
proof (cases "commit_syncing a")
  case (Some e)
  then have "handler a e item s = Inr s' \<or> handler a e item s = Inl (e', s')"
    using res by (simp add: process_item_def)
  then show ?thesis by (rule handler_map)
next
  case None
  let ?i = "id_pk item"
  let ?g1 = "\<lambda>r. if id_pk r = ?i then mark_syncing r else r"
  let ?q1 = "update_row (rows s) ?i mark_syncing"
  let ?s1 = "commit ?q1 s"
  let ?s2 = "?s1\<lparr>calls := calls ?s1 @ [?i]\<rparr>"
  let ?ok = "push_item (execute a) item"
  let ?s3 = "if ?ok then count_pushed ?s2 else count_failed ?s2"
  let ?f = "if ?ok then mark_synced (utcnow a) else mark_failed"
  let ?g2 = "\<lambda>r. if id_pk r = ?i then ?f r else r"
  have rows3: "rows ?s3 = map ?g1 (rows s)"
    by (simp add: update_row_map)
  have k1: "keeps_others {?i} ?g1"
    by (rule keeps_others_update) simp_all
  have k2: "keeps_others {?i} ?g2"
    by (rule keeps_others_update) simp_all
  show ?thesis
  proof (cases "commit_outcome a")
    case None': None
    have "s' = commit (update_row (rows ?s3) ?i ?f) ?s3"
      using res None None' by (simp add: process_item_def Let_def)
    then have "rows s' = map (?g2 \<circ> ?g1) (rows s)"
      using rows3 by (simp add: update_row_map)
    then show ?thesis using keeps_others_comp[OF k1 k2] by blast
  next
    case (Some e)
    have "handler a e item ?s3 = Inr s' \<or> handler a e item ?s3 = Inl (e', s')"
      using res None Some by (simp add: process_item_def Let_def)
    then obtain g where g: "rows s' = map g (rows ?s3)" "keeps_others {?i} g"
      using handler_map by blast
    then have "rows s' = map (g \<circ> ?g1) (rows s)"
      using rows3 by simp
    then show ?thesis using keeps_others_comp[OF k1 g(2)] by blast
  qed
qed

lemma push_loop_map:
  "\<exists>g. rows (push_loop env items s) = map g (rows s) \<and> keeps_others (id_pk ` set items) g"
proof (induction items arbitrary: s)
  case Nil
  have "rows s = map (\<lambda>r. r) (rows s)" by simp
  then show ?case using keeps_others_id by (metis push_loop.simps(1))
next
  case (Cons item items)
  show ?case
  proof (cases "process_item (env (id_pk item)) item s")
    case (Inl p)
    obtain e s' where p: "p = (e, s')" by (cases p)
    then obtain g where "rows s' = map g (rows s)" "keeps_others {id_pk item} g"
      using process_item_map[of "env (id_pk item)" item s s' e] Inl by auto
    moreover have "push_loop env (item # items) s = s'" using Inl p by simp
    ultimately show ?thesis
      using keeps_others_mono[of "{id_pk item}" g "id_pk ` set (item # items)"] by auto
  next
    case (Inr s')
    then obtain g where g: "rows s' = map g (rows s)" "keeps_others {id_pk item} g"
      using process_item_map[of "env (id_pk item)" item s s'] by auto
    obtain g' where g': "rows (push_loop env items s') = map g' (rows s')"
      "keeps_others (id_pk ` set items) g'"
      using Cons.IH by blast
    have "rows (push_loop env (item # items) s) = map (g' \<circ> g) (rows s)"
      using Inr g g' by simp
    moreover have "keeps_others (id_pk ` set (item # items)) (g' \<circ> g)"
      using g(2) g'(2)
      by (intro keeps_others_comp) (auto elim: keeps_others_mono)
    ultimately show ?thesis by blast
  qed
qed

lemma push_loop_history:
  assumes "successively (table_step code_edge) (history s)" "distinct (map id_pk items)"
    "\<forall>r\<in>set (rows s). id_pk r \<in> id_pk ` set items \<longrightarrow> status r = ''pending''"
  shows "successively (table_step code_edge) (history (push_loop env items s))"
  using assms
proof (induction items arbitrary: s)
  case Nil
  then show ?case by simp
next
  case (Cons item items)
  have st: "\<forall>r\<in>set (rows s). id_pk r = id_pk item \<longrightarrow> status r = ''pending''"
    using Cons.prems(3) by simp
  show ?case
  proof (cases "process_item (env (id_pk item)) item s")
    case (Inl p)
    obtain e s' where p: "p = (e, s')" by (cases p)
    then show ?thesis
      using process_item_history[OF Cons.prems(1) st, of "env (id_pk item)" s' e] Inl by simp
  next
    case (Inr s')
    have h': "successively (table_step code_edge) (history s')"
      using process_item_history[OF Cons.prems(1) st, of "env (id_pk item)" s'] Inr by simp
    obtain g where g: "rows s' = map g (rows s)" "keeps_others {id_pk item} g"
      using process_item_map[of "env (id_pk item)" item s s'] Inr by auto
    have notin: "id_pk item \<notin> id_pk ` set items"
      using Cons.prems(2) by auto
    have inv': "\<forall>r\<in>set (rows s'). id_pk r \<in> id_pk ` set items \<longrightarrow> status r = ''pending''"
    proof (intro ballI impI)
      fix r' assume r': "r' \<in> set (rows s')" "id_pk r' \<in> id_pk ` set items"
      then obtain r where r: "r \<in> set (rows s)" "r' = g r" using g(1) by auto
      have "id_pk r = id_pk r'" using g(2) r(2) by (simp add: keeps_others_def)
      then have "id_pk r \<noteq> id_pk item" using r'(2) notin by auto
      then have "r' = r" using g(2) r(2) by (simp add: keeps_others_def)
      then show "status r' = ''pending''" using r(1) r'(2) Cons.prems(3) by simp
    qed
    have "distinct (map id_pk items)" using Cons.prems(2) by simp
    then show ?thesis using Cons.IH[OF h' _ inv'] Inr by simp
  qed
qed

lemma id_pk_settle [simp]: "id_pk (settle a item r) = id_pk r"
  by (simp add: settle_def)

lemma process_item_local_ok:
  assumes "local_ok a"
  shows "\<exists>s'. process_item a item s = Inr s'
      \<and> rows s' = update_row (rows s) (id_pk item) (settle a item)
      \<and> calls s' = calls s @ [id_pk item]
      \<and> length (commits s') = length (commits s) + 2
      \<and> pushed (stats s') = pushed (stats s) + (if push_item (execute a) item then 1 else 0)
      \<and> failed (stats s') = failed (stats s) + (if push_item (execute a) item then 0 else 1)"
  using assms
  by (auto simp: local_ok_def process_item_def Let_def commit_def count_pushed_def
        count_failed_def update_row_def settle_def)

lemma settle_all_Cons_same:
  "id_pk r = id_pk item \<Longrightarrow> settle_all env (item # items) r = settle (env (id_pk item)) item r"
  by (simp add: settle_all_def)

lemma settle_all_Cons_other:
  "id_pk r \<noteq> id_pk item \<Longrightarrow> settle_all env (item # items) r = settle_all env items r"
  by (simp add: settle_all_def)

lemma settle_all_notin:
  "id_pk r \<notin> id_pk ` set items \<Longrightarrow> settle_all env items r = r"
proof -
  assume "id_pk r \<notin> id_pk ` set items"
  then have "find (\<lambda>it. id_pk it = id_pk r) items = None"
    by (induction items) auto
  then show ?thesis by (simp add: settle_all_def)
qed

lemma push_loop_local_ok:
  assumes "\<forall>item\<in>set items. local_ok (env (id_pk item))" "distinct (map id_pk items)"
  shows "rows (push_loop env items s) = map (settle_all env items) (rows s)
       \<and> calls (push_loop env items s) = calls s @ map id_pk items
       \<and> length (commits (push_loop env items s)) = length (commits s) + 2 * length items
       \<and> pushed (stats (push_loop env items s)) = pushed (stats s)
            + int (length (filter (\<lambda>it. push_item (execute (env (id_pk it))) it) items))
       \<and> failed (stats (push_loop env items s)) = failed (stats s)
            + int (length (filter (\<lambda>it. \<not> push_item (execute (env (id_pk it))) it) items))"
  using assms
proof (induction items arbitrary: s)
  case Nil
  show ?case by (simp add: settle_all_def)
next
  case (Cons item items)
  let ?a = "env (id_pk item)"
  have ok: "local_ok ?a" using Cons.prems(1) by simp
  obtain s' where s': "process_item ?a item s = Inr s'"
    "rows s' = update_row (rows s) (id_pk item) (settle ?a item)"
    "calls s' = calls s @ [id_pk item]"
    "length (commits s') = length (commits s) + 2"
    "pushed (stats s') = pushed (stats s) + (if push_item (execute ?a) item then 1 else 0)"
    "failed (stats s') = failed (stats s) + (if push_item (execute ?a) item then 0 else 1)"
    using process_item_local_ok[OF ok, of item s] by blast
  have prems': "\<forall>item\<in>set items. local_ok (env (id_pk item))" "distinct (map id_pk items)"
    using Cons.prems by simp_all
  note IH = Cons.IH[OF prems', of s']
  have loop: "push_loop env (item # items) s = push_loop env items s'"
    using s'(1) by simp
  have notin: "id_pk item \<notin> id_pk ` set items"
    using Cons.prems(2) by auto
  have "map (settle_all env items) (rows s') = map (settle_all env (item # items)) (rows s)"
    unfolding s'(2) update_row_map map_map
  proof (rule map_cong[OF refl])
    fix r assume "r \<in> set (rows s)"
    show "(settle_all env items \<circ> (\<lambda>r. if id_pk r = id_pk item then settle ?a item r else r)) r
          = settle_all env (item # items) r"
    proof (cases "id_pk r = id_pk item")
      case True
      then have "id_pk (settle ?a item r) \<notin> id_pk ` set items" using notin by simp
      then show ?thesis using True
        by (simp add: settle_all_notin settle_all_Cons_same)
    next
      case False
      then show ?thesis by (simp add: settle_all_Cons_other)
    qed
  qed
  then have rows_eq: "rows (push_loop env (item # items) s) = map (settle_all env (item # items)) (rows s)"
    using IH unfolding loop by simp
  have calls_eq: "calls (push_loop env (item # items) s) = calls s @ map id_pk (item # items)"
    using IH s'(3) unfolding loop by simp
  have commits_eq: "length (commits (push_loop env (item # items) s))
                      = length (commits s) + 2 * length (item # items)"
    using IH s'(4) unfolding loop by simp
  have pushed_eq: "pushed (stats (push_loop env (item # items) s)) = pushed (stats s)
            + int (length (filter (\<lambda>it. push_item (execute (env (id_pk it))) it) (item # items)))"
    using IH s'(5) unfolding loop by simp
  have failed_eq: "failed (stats (push_loop env (item # items) s)) = failed (stats s)
            + int (length (filter (\<lambda>it. \<not> push_item (execute (env (id_pk it))) it) (item # items)))"
    using IH s'(6) unfolding loop by simp
  show ?case using rows_eq calls_eq commits_eq pushed_eq failed_eq by blast
qed

lemma get_row_map:
  assumes "\<forall>x. id_pk (g x) = id_pk x"
  shows "get_row (map g q) i = map_option g (get_row q i)"
  using assms by (induction q) (simp_all add: get_row_def)

lemma get_row_primary_key:
  "primary_key q \<Longrightarrow> r \<in> set q \<Longrightarrow> get_row q (id_pk r) = Some r"
  unfolding primary_key_def get_row_def
  by (induction q) (auto simp: image_iff)

lemma select_pending_distinct:
  assumes "primary_key q"
  shows "distinct (map id_pk (select_pending q limit))"
proof -
  have "distinct (map id_pk (filter (\<lambda>r. status r = ''pending'') q))"
    using assms unfolding primary_key_def by (rule distinct_map_filter)
  then have "distinct (take limit (map id_pk (filter (\<lambda>r. status r = ''pending'') q)))"
    by (rule distinct_take)
  then show ?thesis
    unfolding select_pending_def by (simp only: take_map)
qed

lemma select_pending_subset: "r \<in> set (select_pending q limit) \<Longrightarrow> r \<in> set q \<and> status r = ''pending''"
proof -
  assume "r \<in> set (select_pending q limit)"
  then have "r \<in> set (filter (\<lambda>r. status r = ''pending'') q)"
    unfolding select_pending_def by (rule in_set_takeD)
  then show ?thesis by simp
qed

lemma find_distinct_ids:
  "distinct (map id_pk items) \<Longrightarrow> r \<in> set items \<Longrightarrow> find (\<lambda>it. id_pk it = id_pk r) items = Some r"
  by (induction items) (auto simp: image_iff)

lemma settle_all_selected:
  "distinct (map id_pk items) \<Longrightarrow> r \<in> set items \<Longrightarrow> settle_all env items r = settle (env (id_pk r)) r r"
  by (simp add: settle_all_def find_distinct_ids)

lemma handler_done:
  assumes "commit_handler a = None"
  shows "\<exists>s'. handler a e item s = Inr s'
      \<and> rows s' = update_row (rows s) (id_pk item) (mark_error e)"
  using assms by (simp add: handler_def Let_def)

lemma process_item_done:
  assumes "commit_handler a = None"
  shows "\<exists>s' f. process_item a item s = Inr s'
      \<and> rows s' = update_row (rows s) (id_pk item) f
      \<and> (\<forall>r. id_pk (f r) = id_pk r \<and> (status (f r) = ''synced'' \<or> status (f r) = ''failed''))"
proof (cases "commit_syncing a")
  case (Some e)
  then have "process_item a item s = handler a e item s"
    by (simp add: process_item_def)
  then show ?thesis using handler_done[OF assms, of e item s] by force
next
  case None
  let ?i = "id_pk item"
  let ?s1 = "commit (update_row (rows s) ?i mark_syncing) s"
  let ?s2 = "?s1\<lparr>calls := calls ?s1 @ [?i]\<rparr>"
  let ?ok = "push_item (execute a) item"
  let ?s3 = "if ?ok then count_pushed ?s2 else count_failed ?s2"
  let ?f = "if ?ok then mark_synced (utcnow a) else mark_failed"
  have rows3: "rows ?s3 = update_row (rows s) ?i mark_syncing"
    by simp
  show ?thesis
  proof (cases "commit_outcome a")
    case None': None
    have "process_item a item s = Inr (commit (update_row (rows ?s3) ?i ?f) ?s3)"
      using None None' by (simp add: process_item_def Let_def)
    moreover have "rows (commit (update_row (rows ?s3) ?i ?f) ?s3)
                     = update_row (rows s) ?i (?f \<circ> mark_syncing)"
      unfolding rows_commit rows3 by (simp add: update_row_def)
    moreover have "\<forall>r. id_pk ((?f \<circ> mark_syncing) r) = id_pk r
                     \<and> (status ((?f \<circ> mark_syncing) r) = ''synced''
                          \<or> status ((?f \<circ> mark_syncing) r) = ''failed'')"
      by simp
    ultimately show ?thesis by blast
  next
    case (Some e)
    have run: "process_item a item s = handler a e item ?s3"
      using None Some by (simp add: process_item_def Let_def)
    obtain s' where s': "handler a e item ?s3 = Inr s'"
      "rows s' = update_row (rows ?s3) ?i (mark_error e)"
      using handler_done[OF assms, of e item ?s3] by blast
    have "rows s' = update_row (rows s) ?i (mark_error e \<circ> mark_syncing)"
      unfolding s'(2) rows3 by (simp add: update_row_def)
    moreover have "\<forall>r. id_pk ((mark_error e \<circ> mark_syncing) r) = id_pk r
                     \<and> (status ((mark_error e \<circ> mark_syncing) r) = ''synced''
                          \<or> status ((mark_error e \<circ> mark_syncing) r) = ''failed'')"
      by simp
    ultimately show ?thesis using run s'(1) by metis
  qed
qed

lemma push_loop_done:
  assumes "\<forall>item\<in>set items. commit_handler (env (id_pk item)) = None"
    "distinct (map id_pk items)"
  shows "\<forall>r\<in>set (rows (push_loop env items s)). id_pk r \<in> id_pk ` set items
           \<longrightarrow> status r = ''synced'' \<or> status r = ''failed''"
  using assms
proof (induction items arbitrary: s)
  case Nil
  then show ?case by simp
next
  case (Cons item items)
  let ?a = "env (id_pk item)"
  have "commit_handler ?a = None" using Cons.prems(1) by simp
  then obtain s' f where s': "process_item ?a item s = Inr s'"
      "rows s' = update_row (rows s) (id_pk item) f"
      "\<forall>r. id_pk (f r) = id_pk r \<and> (status (f r) = ''synced'' \<or> status (f r) = ''failed'')"
    using process_item_done[of ?a item s] by blast
  have loop: "push_loop env (item # items) s = push_loop env items s'"
    using s'(1) by simp
  have prems': "\<forall>item\<in>set items. commit_handler (env (id_pk item)) = None"
    "distinct (map id_pk items)"
    using Cons.prems by simp_all
  note IH = Cons.IH[OF prems', of s']
  obtain g where g: "rows (push_loop env items s') = map g (rows s')"
      "keeps_others (id_pk ` set items) g"
    using push_loop_map by blast
  have notin: "id_pk item \<notin> id_pk ` set items"
    using Cons.prems(2) by auto
  show ?case
    unfolding loop
  proof (intro ballI impI)
    fix r assume r: "r \<in> set (rows (push_loop env items s'))"
      "id_pk r \<in> id_pk ` set (item # items)"
    show "status r = ''synced'' \<or> status r = ''failed''"
    proof (cases "id_pk r \<in> id_pk ` set items")
      case True
      then show ?thesis using IH r(1) by blast
    next
      case False
      then have idr: "id_pk r = id_pk item" using r(2) by simp
      obtain x where x: "x \<in> set (rows s')" "r = g x"
        using r(1) g(1) by auto
      have "id_pk x = id_pk r" using g(2) x(2) by (simp add: keeps_others_def)
      then have "g x = x" using g(2) False by (simp add: keeps_others_def)
      then have "r \<in> set (update_row (rows s) (id_pk item) f)"
        using x s'(2) by simp
      then obtain y where "y \<in> set (rows s)" "r = (if id_pk y = id_pk item then f y else y)"
        by (auto simp: update_row_def)
      then have "r = f y" using idr by (auto split: if_splits)
      then show ?thesis using s'(3) by simp
    qed
  qed
qed

lemma batch_local_ok:
  assumes en: "is_enabled svc" and qr: "query_raises env = None" and pk: "primary_key q"
    and ok: "\<forall>item\<in>set (select_pending q limit). local_ok (attempts env (id_pk item))"
  shows "rows (push_pending_changes svc env limit q)
           = map (settle_all (attempts env) (select_pending q limit)) q"
    and "calls (push_pending_changes svc env limit q) = map id_pk (select_pending q limit)"
    and "length (commits (push_pending_changes svc env limit q)) = 2 * length (select_pending q limit)"
    and "pushed (stats (push_pending_changes svc env limit q))
           = int (length (filter (\<lambda>it. push_item (execute (attempts env (id_pk it))) it)
                            (select_pending q limit)))"
    and "failed (stats (push_pending_changes svc env limit q))
           = int (length (filter (\<lambda>it. \<not> push_item (execute (attempts env (id_pk it))) it)
                            (select_pending q limit)))"
proof -
  have d: "distinct (map id_pk (select_pending q limit))"
    using pk by (rule select_pending_distinct)
  have run: "push_pending_changes svc env limit q
               = push_loop (attempts env) (select_pending q limit) (start_batch q)"
    using en qr by (simp add: push_pending_changes_def)
  note L = push_loop_local_ok[OF ok d, of "start_batch q"]
  show "rows (push_pending_changes svc env limit q)
           = map (settle_all (attempts env) (select_pending q limit)) q"
    using L unfolding run by (simp add: start_batch_def)
  show "calls (push_pending_changes svc env limit q) = map id_pk (select_pending q limit)"
    using L unfolding run by (simp add: start_batch_def)
  show "length (commits (push_pending_changes svc env limit q)) = 2 * length (select_pending q limit)"
    using L unfolding run by (simp add: start_batch_def)
  show "pushed (stats (push_pending_changes svc env limit q))
           = int (length (filter (\<lambda>it. push_item (execute (attempts env (id_pk it))) it)
                            (select_pending q limit)))"
    using L unfolding run by (simp add: start_batch_def zero_stats_def)
  show "failed (stats (push_pending_changes svc env limit q))
           = int (length (filter (\<lambda>it. \<not> push_item (execute (attempts env (id_pk it))) it)
                            (select_pending q limit)))"
    using L unfolding run by (simp add: start_batch_def zero_stats_def)
qed

lemma batch_local_ok_row:
  assumes en: "is_enabled svc" and qr: "query_raises env = None" and pk: "primary_key q"
    and ok: "\<forall>item\<in>set (select_pending q limit). local_ok (attempts env (id_pk item))"
    and sel: "r \<in> set (select_pending q limit)"
  shows "get_row (rows (push_pending_changes svc env limit q)) (id_pk r)
           = Some (settle (attempts env (id_pk r)) r r)"
proof -
  let ?items = "select_pending q limit"
  let ?G = "settle_all (attempts env) ?items"
  have d: "distinct (map id_pk ?items)"
    using pk by (rule select_pending_distinct)
  have rq: "r \<in> set q" using sel select_pending_subset by blast
  have ids: "\<forall>x. id_pk (?G x) = id_pk x"
    by (simp add: settle_all_def split: option.splits)
  have "get_row (map ?G q) (id_pk r) = map_option ?G (get_row q (id_pk r))"
    using ids by (rule get_row_map)
  also have "\<dots> = Some (?G r)"
    using get_row_primary_key[OF pk rq] by simp
  also have "?G r = settle (attempts env (id_pk r)) r r"
    using d sel by (rule settle_all_selected)
  finally show ?thesis
    using batch_local_ok(1)[OF en qr pk ok] by simp
qed

lemma primary_key_unique:
  assumes "primary_key q" "r \<in> set q" "r' \<in> set q" "id_pk r = id_pk r'"
  shows "r = r'"
proof -
  have "inj_on id_pk (set q)"
    using assms(1) unfolding primary_key_def by (simp add: distinct_map)
  then show ?thesis using assms(2-4) by (auto dest: inj_onD)
qed

lemma selected_ids_pending:
  assumes pk: "primary_key q" and r: "r \<in> set q"
    and i: "id_pk r \<in> id_pk ` set (select_pending q limit)"
  shows "status r = ''pending''"
proof -
  obtain it where it: "it \<in> set (select_pending q limit)" "id_pk r = id_pk it"
    using i by auto
  have "it \<in> set q" "status it = ''pending''"
    using select_pending_subset[OF it(1)] by simp_all
  then show ?thesis using primary_key_unique[OF pk r _ it(2)] by simp
qed

lemma history_start: "history (start_batch q) = [q]"
  by (simp add: history_def start_batch_def)

lemma batch_history:
  assumes pk: "primary_key q"
  shows "successively (table_step code_edge) (history (push_pending_changes svc env limit q))"
proof -
  have h0: "successively (table_step code_edge) (history (start_batch q))"
    by (simp add: history_start)
  have d: "distinct (map id_pk (select_pending q limit))"
    using pk by (rule select_pending_distinct)
  have inv: "\<forall>r\<in>set (rows (start_batch q)).
               id_pk r \<in> id_pk ` set (select_pending q limit) \<longrightarrow> status r = ''pending''"
    using selected_ids_pending[OF pk] by (simp add: start_batch_def)
  have "successively (table_step code_edge)
          (history (push_loop (attempts env) (select_pending q limit) (start_batch q)))"
    using h0 d inv by (rule push_loop_history)
  then show ?thesis
    using h0 by (simp add: push_pending_changes_def split: option.splits)
qed

lemma batch_map:
  "\<exists>g. rows (push_pending_changes svc env limit q) = map g q
       \<and> keeps_others (id_pk ` set (select_pending q limit)) g"
proof (cases "is_enabled svc \<and> query_raises env = None")
  case True
  obtain g where "rows (push_loop (attempts env) (select_pending q limit) (start_batch q))
                       = map g (rows (start_batch q))"
      "keeps_others (id_pk ` set (select_pending q limit)) g"
    using push_loop_map by blast
  then show ?thesis
    using True by (auto simp: push_pending_changes_def start_batch_def)
next
  case False
  then have "rows (push_pending_changes svc env limit q) = map (\<lambda>r. r) q"
    by (auto simp: push_pending_changes_def start_batch_def split: option.splits)
  then show ?thesis using keeps_others_id by blast
qed

lemma batch_terminal:
  assumes pk: "primary_key q"
  shows "list_all2 (\<lambda>r r'. status r = ''pending'' \<or> r' = r) q
           (rows (push_pending_changes svc env limit q))"
proof -
  obtain g where g: "rows (push_pending_changes svc env limit q) = map g q"
      "keeps_others (id_pk ` set (select_pending q limit)) g"
    using batch_map by blast
  have "list_all2 (\<lambda>r r'. status r = ''pending'' \<or> r' = r) q (map g q)"
    unfolding list_all2_map2 list_all2_same
  proof
    fix r assume r: "r \<in> set q"
    show "status r = ''pending'' \<or> g r = r"
    proof (cases "id_pk r \<in> id_pk ` set (select_pending q limit)")
      case True
      then show ?thesis using selected_ids_pending[OF pk r] by simp
    next
      case False
      then show ?thesis using g(2) by (simp add: keeps_others_def)
    qed
  qed
  then show ?thesis using g(1) by simp
qed

lemma batch_primary_key:
  assumes "primary_key q"
  shows "primary_key (rows (push_pending_changes svc env limit q))"
proof -
  obtain g where g: "rows (push_pending_changes svc env limit q) = map g q"
      "keeps_others (id_pk ` set (select_pending q limit)) g"
    using batch_map by blast
  have "id_pk \<circ> g = id_pk"
    using g(2) by (auto simp: keeps_others_def)
  then have "map id_pk (map g q) = map id_pk q"
    by simp
  then show ?thesis using assms unfolding primary_key_def g(1) by (simp only:)
qed

lemma successively_commit_any:
  "successively (table_step edge) (history s) \<Longrightarrow> table_step edge (rows s) q
   \<Longrightarrow> successively (table_step edge) (history (commit q s))"
  by (simp add: history_commit successively_append_iff last_history history_nonempty)

lemma written_update:
  assumes "\<forall>r. id_pk (f r) = id_pk r \<and> written_edge (status r) (status (f r))"
  shows "table_step written_edge q (update_row q i f)"
  using assms by (intro table_step_update) simp

lemma handler_written:
  assumes h: "successively (table_step written_edge) (history s)"
    and res: "handler a e item s = Inr s' \<or> handler a e item s = Inl (e', s')"
  shows "successively (table_step written_edge) (history s')"
proof (cases "commit_handler a")
  case None
  have "table_step written_edge (rows s) (update_row (rows s) (id_pk item) (mark_error e))"
    by (rule written_update) (simp add: written_edge_def)
  then have "successively (table_step written_edge)
               (history (commit (update_row (rows s) (id_pk item) (mark_error e)) (count_failed s)))"
    using h by (intro successively_commit_any) simp_all
  then show ?thesis
    using None res by (auto simp: handler_def Let_def)
next
  case (Some x)
  then show ?thesis using res h by (auto simp: handler_def Let_def)
qed

lemma process_item_written:
  assumes h: "successively (table_step written_edge) (history s)"
    and res: "process_item a item s = Inr s' \<or> process_item a item s = Inl (e', s')"
  shows "successively (table_step written_edge) (history s')"
proof (cases "commit_syncing a")
  case (Some e)
  then have "handler a e item s = Inr s' \<or> handler a e item s = Inl (e', s')"
    using res by (simp add: process_item_def)
  then show ?thesis using handler_written[OF h] by blast
next
  case None
  let ?i = "id_pk item"
  let ?q1 = "update_row (rows s) ?i mark_syncing"
  let ?s1 = "commit ?q1 s"
  let ?s2 = "?s1\<lparr>calls := calls ?s1 @ [?i]\<rparr>"
  let ?ok = "push_item (execute a) item"
  let ?s3 = "if ?ok then count_pushed ?s2 else count_failed ?s2"
  let ?f = "if ?ok then mark_synced (utcnow a) else mark_failed"
  have step1: "table_step written_edge (rows s) ?q1"
    by (rule written_update) (simp add: written_edge_def)
  have h1: "successively (table_step written_edge) (history ?s1)"
    using h step1 by (rule successively_commit_any)
  have hist3: "history ?s3 = history ?s1"
    by (simp add: history_def)
  have h3: "successively (table_step written_edge) (history ?s3)"
    using h1 hist3 by simp
  show ?thesis
  proof (cases "commit_outcome a")
    case None': None
    have step2: "table_step written_edge (rows ?s3) (update_row (rows ?s3) ?i ?f)"
      by (rule written_update) (simp add: written_edge_def)
    have "s' = commit (update_row (rows ?s3) ?i ?f) ?s3"
      using res None None' by (simp add: process_item_def Let_def)
    then show ?thesis using successively_commit_any[OF h3 step2] by simp
  next
    case (Some e)
    have "handler a e item ?s3 = Inr s' \<or> handler a e item ?s3 = Inl (e', s')"
      using res None Some by (simp add: process_item_def Let_def)
    then show ?thesis using handler_written[OF h3] by blast
  qed
qed

lemma push_loop_written:
  assumes "successively (table_step written_edge) (history s)"
  shows "successively (table_step written_edge) (history (push_loop env items s))"
  using assms
proof (induction items arbitrary: s)
  case Nil
  then show ?case by simp
next
  case (Cons item items)
  show ?case
  proof (cases "process_item (env (id_pk item)) item s")
    case (Inl p)
    obtain e s' where p: "p = (e, s')" by (cases p)
    then show ?thesis
      using process_item_written[OF Cons.prems, of "env (id_pk item)" item s' e] Inl by simp
  next
    case (Inr s')
    have "successively (table_step written_edge) (history s')"
      using process_item_written[OF Cons.prems, of "env (id_pk item)" item s'] Inr by simp
    then show ?thesis using Cons.IH Inr by simp
  qed
qed

lemma stale_loop_written:
  "successively (table_step written_edge) (history (push_loop env items (start_batch q)))"
  by (rule push_loop_written) (simp add: history_start)

lemma overlapped_written:
  "successively (table_step written_edge) (history (overlapped svc env_inner env_outer limit q))"
  using stale_loop_written
  by (simp add: overlapped_def Let_def history_start split: option.splits)

section \<open>The manager\<close>



lemma count_status_count_list:
  "count_status q st = int (count_list (map status q) st)"
  by (induction q) (simp_all add: count_status_def)

lemma count_status_total:
  assumes "\<forall>r\<in>set q. status r = ''pending'' \<or> status r = ''syncing'' \<or> status r = ''failed''
                        \<or> status r = ''synced''"
  shows "count_status q ''pending'' + count_status q ''syncing'' + count_status q ''failed''
           + count_status q ''synced'' = int (length q)"
  using assms by (induction q) (auto simp: count_status_def)

section \<open>The claims\<close>

subsection \<open>C1: capture and domain write\<close>

text \<open>
  C1, as amended. With the engine enabled, the capture writes its ChangeRecord in a
  session of its own and commits it at once, before the domain transaction commits.
  If the commit of the capture raises, the exception reaches the domain write and
  neither the ChangeRecord nor the domain row is committed. If both commits succeed,
  both are there. If the capture has committed and the domain commit then raises, the
  domain row is absent and the ChangeRecord, with status pending, stays in the queue.
\<close>

theorem C1_capture_commits_alone:
  "(is_enabled svc \<and> capture_commit cenv = Some e \<longrightarrow>
      add_to_queue svc cenv tname rid ''create'' (Some snap) (sync_queue db) = Inl e
    \<and> create_record svc cenv dc (tname, rid, snap) db = Inl (e, db))
   \<and> (is_enabled svc \<and> capture_commit cenv = None \<and> dc = None \<longrightarrow>
      create_record svc cenv dc (tname, rid, snap) db =
        Inr \<lparr>domain_rows = domain_rows db @ [(tname, rid, snap)],
             sync_queue = sync_queue db @ [new_change cenv tname rid ''create'' (Some snap) (sync_queue db)]\<rparr>)
   \<and> (is_enabled svc \<and> capture_commit cenv = None \<and> dc = Some e' \<longrightarrow>
      create_record svc cenv dc (tname, rid, snap) db =
        Inl (e', db\<lparr>sync_queue := sync_queue db @ [new_change cenv tname rid ''create'' (Some snap) (sync_queue db)]\<rparr>))"
  by (simp add: add_to_sync_queue_def add_to_queue_def Let_def)

theorem C1_capture_commits_alone_witness:
  "is_enabled svc_on \<and> capture_commit capture_ok = None
   \<and> create_record svc_on capture_ok None (''contacts'', ''42'', ''{name: Alice}'') empty_db
       = Inr \<lparr>domain_rows = [(''contacts'', ''42'', ''{name: Alice}'')], sync_queue = [alice]\<rparr>
   \<and> capture_commit (capture_ok\<lparr>capture_commit := Some ''database is locked''\<rparr>) = Some ''database is locked''
   \<and> create_record svc_on (capture_ok\<lparr>capture_commit := Some ''database is locked''\<rparr>) None
         (''contacts'', ''42'', ''{name: Alice}'') empty_db
       = Inl (''database is locked'', empty_db)
   \<and> create_record svc_on capture_ok (Some ''disk full'') (''contacts'', ''42'', ''{name: Alice}'') empty_db
       = Inl (''disk full'', empty_db\<lparr>sync_queue := [alice]\<rparr>)"
proof -
  have h1: "is_enabled svc_on" by (simp add: is_enabled_def svc_on_def)
  have h2: "capture_commit capture_ok = None" by (simp add: capture_ok_def)
  have h3: "capture_commit (capture_ok\<lparr>capture_commit := Some ''database is locked''\<rparr>) = Some ''database is locked''"
    by simp
  have n: "new_change capture_ok ''contacts'' ''42'' ''create'' (Some ''{name: Alice}'') [] = alice"
    by (simp add: new_change_def next_id_def capture_ok_def alice_def)
  have a: "create_record svc_on capture_ok None (''contacts'', ''42'', ''{name: Alice}'') empty_db
       = Inr \<lparr>domain_rows = [(''contacts'', ''42'', ''{name: Alice}'')], sync_queue = [alice]\<rparr>"
    using C1_capture_commits_alone[of svc_on capture_ok _ "''contacts''" "''42''" "''{name: Alice}''" empty_db None]
      h1 h2 n by (simp add: empty_db_def)
  have b: "create_record svc_on (capture_ok\<lparr>capture_commit := Some ''database is locked''\<rparr>) None
         (''contacts'', ''42'', ''{name: Alice}'') empty_db
       = Inl (''database is locked'', empty_db)"
    using C1_capture_commits_alone[of svc_on "capture_ok\<lparr>capture_commit := Some ''database is locked''\<rparr>"
        "''database is locked''" "''contacts''" "''42''" "''{name: Alice}''" empty_db None] h1 h3
    by simp
  have c: "create_record svc_on capture_ok (Some ''disk full'') (''contacts'', ''42'', ''{name: Alice}'') empty_db
       = Inl (''disk full'', empty_db\<lparr>sync_queue := [alice]\<rparr>)"
    using C1_capture_commits_alone[of svc_on capture_ok _ "''contacts''" "''42''" "''{name: Alice}''" empty_db
        "Some ''disk full''" "''disk full''"] h1 h2 n by (simp add: empty_db_def)
  show ?thesis using h1 h2 h3 a b c by simp
qed

text \<open>
  The claim as stated fails: the capture succeeds, the commit of the domain
  transaction raises, and the queue holds a ChangeRecord for a contact that the domain
  table does not have.
\<close>

theorem C1_counterexample:
  "create_record svc_on capture_ok (Some ''disk full'') (''contacts'', ''42'', ''{name: Alice}'') empty_db
     = Inl (''disk full'', \<lparr>domain_rows = [], sync_queue = [alice]\<rparr>)"
  by (simp add: add_to_sync_queue_def add_to_queue_def new_change_def next_id_def
        is_enabled_def Let_def empty_db_def data_defs)

subsection \<open>C2: one batch at a time\<close>




subsection \<open>C3: what a batch selects\<close>

text \<open>
  C3, as amended. The batch selects exactly \<open>limit\<close> rows when at least that many
  are pending and all pending rows otherwise; they are pending rows of the table, and
  they are the first ones in the order in which the database scans the table, none
  skipped in that order: the query has no ORDER BY. If the scan order is ascending in
  the id, then the selected ids are ascending and no pending row with a smaller id than
  a selected row is left out. These are the records that the batch hands to the remote,
  in this order, when it is enabled and its query and local commits do not raise.
\<close>

theorem C3_selection:
  "length (select_pending q limit) = min limit (length (filter (\<lambda>r. status r = ''pending'') q))
   \<and> length (select_pending q limit) \<le> limit
   \<and> (\<forall>r\<in>set (select_pending q limit). r \<in> set q \<and> status r = ''pending'')
   \<and> (\<exists>rest. filter (\<lambda>r. status r = ''pending'') q = select_pending q limit @ rest)
   \<and> (sorted_wrt (<) (map id_pk q) \<longrightarrow>
        sorted_wrt (<) (map id_pk (select_pending q limit)) \<and>
        (\<forall>r\<in>set q. \<forall>s\<in>set (select_pending q limit).
            status r = ''pending'' \<and> id_pk r < id_pk s \<longrightarrow> r \<in> set (select_pending q limit)))
   \<and> (is_enabled svc \<and> query_raises env = None \<and> primary_key q
        \<and> (\<forall>item\<in>set (select_pending q limit). local_ok (attempts env (id_pk item)))
        \<longrightarrow> calls (push_pending_changes svc env limit q) = map id_pk (select_pending q limit))"
proof -
  have len: "length (select_pending q limit)
               = min limit (length (filter (\<lambda>r. status r = ''pending'') q))"
    by (rule select_pending_length)
  have le: "length (select_pending q limit) \<le> limit"
    by (simp add: select_pending_def)
  have sub: "\<forall>r\<in>set (select_pending q limit). r \<in> set q \<and> status r = ''pending''"
    using select_pending_subset by blast
  have pre: "\<exists>rest. filter (\<lambda>r. status r = ''pending'') q = select_pending q limit @ rest"
    using select_pending_prefix by blast
  have srt: "sorted_wrt (<) (map id_pk q) \<longrightarrow>
        sorted_wrt (<) (map id_pk (select_pending q limit)) \<and>
        (\<forall>r\<in>set q. \<forall>s\<in>set (select_pending q limit).
            status r = ''pending'' \<and> id_pk r < id_pk s \<longrightarrow> r \<in> set (select_pending q limit))"
    using select_pending_sorted select_pending_no_skip by blast
  have run: "is_enabled svc \<and> query_raises env = None \<and> primary_key q
        \<and> (\<forall>item\<in>set (select_pending q limit). local_ok (attempts env (id_pk item)))
        \<longrightarrow> calls (push_pending_changes svc env limit q) = map id_pk (select_pending q limit)"
    using batch_local_ok(2) by blast
  show ?thesis
    using len le sub pre srt run by (intro conjI)
qed

theorem C3_selection_witness:
  "sorted_wrt (<) (map id_pk [alice, bob])
   \<and> select_pending [alice, bob] 1 = [alice]
   \<and> length (select_pending [alice, bob] 1) = 1
   \<and> sorted_wrt (<) (map id_pk (select_pending [alice, bob] 1))
   \<and> is_enabled svc_on \<and> query_raises env_ok = None \<and> primary_key [alice, bob]
   \<and> list_all (\<lambda>item. local_ok (attempts env_ok (id_pk item))) (select_pending [alice, bob] 1)
   \<and> calls (push_pending_changes svc_on env_ok 1 [alice, bob]) = [1]
   \<and> map status (rows (push_pending_changes svc_on env_ok 1 [alice, bob])) = [''synced'', ''pending'']"
proof -
  have sel: "select_pending [alice, bob] 1 = [alice]"
    by (simp add: select_pending_def alice_def bob_def)
  have srt: "sorted_wrt (<) (map id_pk [alice, bob])"
    by (simp add: alice_def bob_def)
  have h1: "is_enabled svc_on" by (simp add: is_enabled_def svc_on_def)
  have h2: "query_raises env_ok = None" by (simp add: env_ok_def)
  have h3: "primary_key [alice, bob]" by (simp add: primary_key_def alice_def bob_def)
  have h4: "\<forall>item\<in>set (select_pending [alice, bob] 1). local_ok (attempts env_ok (id_pk item))"
    by (simp add: sel local_ok_def env_ok_def attempt_ok_def)
  note T = C3_selection[of "[alice, bob]" 1 svc_on env_ok]
  have len: "length (select_pending [alice, bob] 1) = 1"
    using T by (simp add: alice_def bob_def)
  have sorted_sel: "sorted_wrt (<) (map id_pk (select_pending [alice, bob] 1))"
    using T srt by blast
  have "calls (push_pending_changes svc_on env_ok 1 [alice, bob])
          = map id_pk (select_pending [alice, bob] 1)"
    using T h1 h2 h3 h4 by blast
  then have calls1: "calls (push_pending_changes svc_on env_ok 1 [alice, bob]) = [1]"
    unfolding sel by (simp add: alice_def)
  have rows1: "map status (rows (push_pending_changes svc_on env_ok 1 [alice, bob]))
                 = [''synced'', ''pending'']"
    by (simp add: batch_defs data_defs)
  show ?thesis
    using srt sel len sorted_sel h1 h2 h3 h4 calls1 rows1 by (simp add: list_all_iff)
qed

text \<open>
  The claim as stated fails on a table that the database scans in another order than
  the id: with limit 1 the row with id 2 is selected and the pending row with id 1 is
  skipped.
\<close>

theorem C3_counterexample:
  "primary_key [bob, alice] \<and> select_pending [bob, alice] 1 = [bob]
   \<and> status alice = ''pending'' \<and> id_pk alice < id_pk bob
   \<and> alice \<notin> set (select_pending [bob, alice] 1)"
  by (simp add: primary_key_def select_pending_def alice_def bob_def)

subsection \<open>C4: the row of a successful push\<close>

text \<open>
  C4, as amended. In an enabled batch whose query and local commits do not raise, a
  selected record whose remote push succeeds ends with status synced and \<open>synced_at\<close>
  set to the time of success, every other column as it was: \<open>error_message\<close> is
  left unchanged, so it is null exactly when it was null before.
\<close>

theorem C4_success_outcome:
  assumes "is_enabled svc" and "query_raises env = None" and "primary_key q"
    and "\<forall>item\<in>set (select_pending q limit). local_ok (attempts env (id_pk item))"
    and "r \<in> set (select_pending q limit)"
    and "push_item (execute (attempts env (id_pk r))) r"
  shows "get_row (rows (push_pending_changes svc env limit q)) (id_pk r)
           = Some (r\<lparr>status := ''synced'',
                      synced_at := Some (utcnow (attempts env (id_pk r)))\<rparr>)"
  using batch_local_ok_row[OF assms(1-5)] assms(6)
  by (simp add: settle_def mark_synced_def mark_syncing_def)

theorem C4_success_outcome_witness:
  "is_enabled svc_on \<and> query_raises env_ok = None \<and> primary_key [carol]
   \<and> list_all (\<lambda>item. local_ok (attempts env_ok (id_pk item))) (select_pending [carol] 10)
   \<and> carol \<in> set (select_pending [carol] 10)
   \<and> push_item (execute (attempts env_ok (id_pk carol))) carol
   \<and> get_row (rows (push_pending_changes svc_on env_ok 10 [carol])) 3
       = Some (carol\<lparr>status := ''synced'', synced_at := Some 100\<rparr>)"
proof -
  have h1: "is_enabled svc_on" by (simp add: is_enabled_def svc_on_def)
  have h2: "query_raises env_ok = None" by (simp add: env_ok_def)
  have h3: "primary_key [carol]" by (simp add: primary_key_def)
  have sel: "select_pending [carol] 10 = [carol]" by (simp add: select_pending_def carol_def)
  have h4: "\<forall>item\<in>set (select_pending [carol] 10). local_ok (attempts env_ok (id_pk item))"
    by (simp add: sel local_ok_def env_ok_def attempt_ok_def)
  have h5: "carol \<in> set (select_pending [carol] 10)" by (simp add: sel)
  have h6: "push_item (execute (attempts env_ok (id_pk carol))) carol"
    by (simp add: push_item_def env_ok_def attempt_ok_def carol_def)
  have "utcnow (attempts env_ok (id_pk carol)) = 100" "id_pk carol = 3"
    by (simp_all add: env_ok_def attempt_ok_def carol_def)
  then show ?thesis
    using C4_success_outcome[OF h1 h2 h3 h4 h5 h6] h1 h2 h3 h4 h5 h6
    by (simp add: list_all_iff)
qed

text \<open>
  The claim as stated fails for a pending row that carries a failure reason: the push
  succeeds, the row is synced, and the reason is still there.
\<close>

theorem C4_counterexample:
  "map status (rows (push_pending_changes svc_on env_ok 10 [carol])) = [''synced'']
   \<and> map error_message (rows (push_pending_changes svc_on env_ok 10 [carol])) = [Some ''timeout'']"
  by (simp add: batch_defs data_defs)

subsection \<open>C5: the row of a failed push\<close>

text \<open>
  C5, on the code. One pending update; the remote raises a timeout (first three
  conjuncts) or answers with an empty result (last three). In both cases the row ends
  with status failed and \<open>retry_count\<close> 1, and \<open>error_message\<close> is still null:
  \<open>_push_item\<close> turns both into \<open>False\<close>, the branch for \<open>False\<close> does not
  assign \<open>error_message\<close>, only the exception handler of the loop body does.
\<close>

theorem C5_failure_leaves_no_reason:
  "map status (rows (push_pending_changes svc_on env_timeout 10 [bob])) = [''failed'']
   \<and> map retry_count (rows (push_pending_changes svc_on env_timeout 10 [bob])) = [1]
   \<and> map error_message (rows (push_pending_changes svc_on env_timeout 10 [bob])) = [None]
   \<and> map status (rows (push_pending_changes svc_on env_rejected 10 [bob])) = [''failed'']
   \<and> map retry_count (rows (push_pending_changes svc_on env_rejected 10 [bob])) = [1]
   \<and> map error_message (rows (push_pending_changes svc_on env_rejected 10 [bob])) = [None]"
  by (simp add: batch_defs data_defs)

subsection \<open>C6: a failed push does not stop the batch\<close>

text \<open>
  C6. In an enabled batch whose query does not raise, whatever the remote does for each
  record (success, reported failure or exception). If the local commits of the loop
  body do not raise: the remote is called for every selected record, in the order of
  selection; each selected record has its own two commits; the row of each selected
  record ends as its own remote result decides (\<open>settle\<close>), whatever happened to the
  others; and every selected record is counted once, as pushed or as failed. If local
  commits raise but the commit of the exception handler does not: the loop still goes
  over all selected records, and each of them ends synced or failed.
\<close>

theorem C6_failures_are_isolated:
  assumes "is_enabled svc" and "query_raises env = None" and "primary_key q"
  shows "((\<forall>item\<in>set (select_pending q limit). local_ok (attempts env (id_pk item))) \<longrightarrow>
            calls (push_pending_changes svc env limit q) = map id_pk (select_pending q limit)
          \<and> length (commits (push_pending_changes svc env limit q))
              = 2 * length (select_pending q limit)
          \<and> (\<forall>r\<in>set (select_pending q limit).
                get_row (rows (push_pending_changes svc env limit q)) (id_pk r)
                  = Some (settle (attempts env (id_pk r)) r r))
          \<and> pushed (stats (push_pending_changes svc env limit q))
              + failed (stats (push_pending_changes svc env limit q))
              = int (length (select_pending q limit)))
       \<and> ((\<forall>item\<in>set (select_pending q limit). commit_handler (attempts env (id_pk item)) = None)
            \<longrightarrow> (\<forall>r\<in>set (rows (push_pending_changes svc env limit q)).
                   id_pk r \<in> id_pk ` set (select_pending q limit)
                   \<longrightarrow> status r = ''synced'' \<or> status r = ''failed''))"
proof (intro conjI impI)
  assume ok: "\<forall>item\<in>set (select_pending q limit). local_ok (attempts env (id_pk item))"
  note B = batch_local_ok[OF assms ok]
  show "calls (push_pending_changes svc env limit q) = map id_pk (select_pending q limit)"
    by (rule B(2))
  show "length (commits (push_pending_changes svc env limit q))
          = 2 * length (select_pending q limit)"
    by (rule B(3))
  show "\<forall>r\<in>set (select_pending q limit).
          get_row (rows (push_pending_changes svc env limit q)) (id_pk r)
            = Some (settle (attempts env (id_pk r)) r r)"
    using batch_local_ok_row[OF assms ok] by blast
  have "length (filter (\<lambda>it. push_item (execute (attempts env (id_pk it))) it) (select_pending q limit))
        + length (filter (\<lambda>it. \<not> push_item (execute (attempts env (id_pk it))) it) (select_pending q limit))
        = length (select_pending q limit)"
    by (rule sum_length_filter_compl)
  then show "pushed (stats (push_pending_changes svc env limit q))
           + failed (stats (push_pending_changes svc env limit q))
           = int (length (select_pending q limit))"
    unfolding B(4) B(5) by linarith
next
  assume h: "\<forall>item\<in>set (select_pending q limit). commit_handler (attempts env (id_pk item)) = None"
  have d: "distinct (map id_pk (select_pending q limit))"
    using assms(3) by (rule select_pending_distinct)
  have run: "push_pending_changes svc env limit q
               = push_loop (attempts env) (select_pending q limit) (start_batch q)"
    using assms(1,2) by (simp add: push_pending_changes_def)
  show "\<forall>r\<in>set (rows (push_pending_changes svc env limit q)).
          id_pk r \<in> id_pk ` set (select_pending q limit)
          \<longrightarrow> status r = ''synced'' \<or> status r = ''failed''"
    unfolding run using h d by (rule push_loop_done)
qed

theorem C6_failures_are_isolated_witness:
  "is_enabled svc_on \<and> query_raises env_first_fails = None \<and> primary_key [alice, bob]
   \<and> list_all (\<lambda>item. local_ok (attempts env_first_fails (id_pk item))) (select_pending [alice, bob] 10)
   \<and> calls (push_pending_changes svc_on env_first_fails 10 [alice, bob]) = [1, 2]
   \<and> length (commits (push_pending_changes svc_on env_first_fails 10 [alice, bob])) = 4
   \<and> get_row (rows (push_pending_changes svc_on env_first_fails 10 [alice, bob])) 1
        = Some (alice\<lparr>status := ''failed'', retry_count := 1\<rparr>)
   \<and> get_row (rows (push_pending_changes svc_on env_first_fails 10 [alice, bob])) 2
        = Some (bob\<lparr>status := ''synced'', synced_at := Some 100\<rparr>)
   \<and> pushed (stats (push_pending_changes svc_on env_first_fails 10 [alice, bob]))
        + failed (stats (push_pending_changes svc_on env_first_fails 10 [alice, bob])) = 2
   \<and> query_raises env_first_locked = None
   \<and> list_all (\<lambda>item. commit_handler (attempts env_first_locked (id_pk item)) = None)
         (select_pending [alice, bob] 10)
   \<and> list_all (\<lambda>r. status r = ''synced'' \<or> status r = ''failed'')
         (rows (push_pending_changes svc_on env_first_locked 10 [alice, bob]))
   \<and> map status (rows (push_pending_changes svc_on env_first_locked 10 [alice, bob]))
        = [''failed'', ''synced'']"
proof -
  have h1: "is_enabled svc_on" by (simp add: is_enabled_def svc_on_def)
  have h2: "query_raises env_first_fails = None" by (simp add: env_first_fails_def)
  have h2': "query_raises env_first_locked = None" by (simp add: env_first_locked_def)
  have h3: "primary_key [alice, bob]" by (simp add: primary_key_def alice_def bob_def)
  have sel: "select_pending [alice, bob] 10 = [alice, bob]"
    by (simp add: select_pending_def alice_def bob_def)
  have h4: "\<forall>item\<in>set (select_pending [alice, bob] 10). local_ok (attempts env_first_fails (id_pk item))"
    by (simp add: sel local_ok_def env_first_fails_def attempt_ok_def)
  have h5: "\<forall>item\<in>set (select_pending [alice, bob] 10).
              commit_handler (attempts env_first_locked (id_pk item)) = None"
    by (simp add: sel env_first_locked_def attempt_ok_def)
  have s1: "settle (attempts env_first_fails 1) alice alice
              = alice\<lparr>status := ''failed'', retry_count := 1\<rparr>"
    by (simp add: settle_def push_item_def env_first_fails_def attempt_ok_def alice_def
          mark_failed_def mark_syncing_def)
  have s2: "settle (attempts env_first_fails 2) bob bob
              = bob\<lparr>status := ''synced'', synced_at := Some 100\<rparr>"
    by (simp add: settle_def push_item_def env_first_fails_def attempt_ok_def bob_def
          mark_synced_def mark_syncing_def)
  have ids: "id_pk alice = 1" "id_pk bob = 2" by (simp_all add: alice_def bob_def)
  note A = C6_failures_are_isolated[OF h1 h2 h3, of 10, THEN conjunct1, THEN mp, OF h4]
  note B = C6_failures_are_isolated[OF h1 h2' h3, of 10, THEN conjunct2, THEN mp, OF h5]
  have first: "calls (push_pending_changes svc_on env_first_fails 10 [alice, bob]) = [1, 2]
     \<and> length (commits (push_pending_changes svc_on env_first_fails 10 [alice, bob])) = 4
     \<and> get_row (rows (push_pending_changes svc_on env_first_fails 10 [alice, bob])) 1
          = Some (alice\<lparr>status := ''failed'', retry_count := 1\<rparr>)
     \<and> get_row (rows (push_pending_changes svc_on env_first_fails 10 [alice, bob])) 2
          = Some (bob\<lparr>status := ''synced'', synced_at := Some 100\<rparr>)
     \<and> pushed (stats (push_pending_changes svc_on env_first_fails 10 [alice, bob]))
          + failed (stats (push_pending_changes svc_on env_first_fails 10 [alice, bob])) = 2"
    using A by (simp add: sel s1 s2 ids)
  have rows2: "map id_pk (rows (push_pending_changes svc_on env_first_locked 10 [alice, bob])) = [1, 2]"
    "map status (rows (push_pending_changes svc_on env_first_locked 10 [alice, bob]))
        = [''failed'', ''synced'']"
    by (simp_all add: batch_defs data_defs)
  have "\<forall>r\<in>set (rows (push_pending_changes svc_on env_first_locked 10 [alice, bob])).
          id_pk r \<in> {1, 2}"
    using rows2(1) by (metis list.set_map list.simps(15) list.set(1) imageI)
  then have second: "list_all (\<lambda>r. status r = ''synced'' \<or> status r = ''failed'')
         (rows (push_pending_changes svc_on env_first_locked 10 [alice, bob]))"
    using B by (simp add: sel ids list_all_iff)
  show ?thesis
    using h1 h2 h2' h3 h4 h5 first second rows2(2) by (simp add: list_all_iff)
qed

subsection \<open>C7: the status machine\<close>

text \<open>
  C7, as amended. Every ChangeRecord that \<open>add_to_queue\<close> creates has status
  pending and is appended to the queue, the other rows as they were. For a batch that
  runs with no other batch overlapping it: every commit leaves the status of each row as
  it is or moves it along pending to syncing, syncing to synced, syncing to failed, or
  pending to failed, the last edge being taken by the exception handler when the commit
  that would publish syncing raises; the batch leaves every row that is not pending
  exactly as it was, so failed and synced are terminal; no batch selects the record of
  a row that is not pending; and the table that the batch leaves has its primary key
  again, so all this holds for the next batch. The retention sweep only removes rows.
  Whatever items a loop holds and whatever the table holds by then, as when a forced
  sync overlaps a running batch, every commit of the loop leaves the status of a row as
  it is or writes syncing, synced or failed: no record is ever moved back to pending.
\<close>

theorem C7_status_machine:
  assumes "primary_key q"
  shows "(\<forall>q' item. add_to_queue svc cenv tname rid op d q = Inr (q', Some item)
            \<longrightarrow> status item = ''pending'' \<and> q' = q @ [item])
       \<and> successively (table_step code_edge) (history (push_pending_changes svc env limit q))
       \<and> list_all2 (\<lambda>r r'. status r = ''pending'' \<or> r' = r) q
            (rows (push_pending_changes svc env limit q))
       \<and> (\<forall>r\<in>set q. status r \<noteq> ''pending''
             \<longrightarrow> id_pk r \<notin> id_pk ` set (select_pending q limit'))
       \<and> primary_key (rows (push_pending_changes svc env limit q))
       \<and> (\<forall>r\<in>set (fst (clear_synced_items senv days q)). r \<in> set q)
       \<and> successively (table_step written_edge)
            (history (push_loop (attempts env') items (start_batch q')))
       \<and> successively (table_step written_edge) (history (overlapped svc env env' limit q))"
proof (intro conjI allI impI ballI)
  fix q' item
  assume "add_to_queue svc cenv tname rid op d q = Inr (q', Some item)"
  then show "status item = ''pending''" "q' = q @ [item]"
    by (auto simp: add_to_queue_def new_change_def Let_def split: if_splits option.splits)
next
  show "successively (table_step code_edge) (history (push_pending_changes svc env limit q))"
    using assms by (rule batch_history)
next
  show "list_all2 (\<lambda>r r'. status r = ''pending'' \<or> r' = r) q
          (rows (push_pending_changes svc env limit q))"
    using assms by (rule batch_terminal)
next
  fix r assume "r \<in> set q" "status r \<noteq> ''pending''"
  then show "id_pk r \<notin> id_pk ` set (select_pending q limit')"
    using selected_ids_pending[OF assms] by blast
next
  show "primary_key (rows (push_pending_changes svc env limit q))"
    using assms by (rule batch_primary_key)
next
  fix r assume "r \<in> set (fst (clear_synced_items senv days q))"
  then show "r \<in> set q"
    by (auto simp: clear_synced_items_def Let_def split: option.splits)
next
  show "successively (table_step written_edge)
          (history (push_loop (attempts env') items (start_batch q')))"
    by (rule stale_loop_written)
next
  show "successively (table_step written_edge) (history (overlapped svc env env' limit q))"
    by (rule overlapped_written)
qed

theorem C7_status_machine_witness:
  "primary_key [dave, alice, bob]
   \<and> add_to_queue svc_on capture_ok ''contacts'' ''8'' ''delete'' None [dave, alice, bob]
       = Inr ([dave, alice, bob] @ [new_change capture_ok ''contacts'' ''8'' ''delete'' None [dave, alice, bob]],
              Some (new_change capture_ok ''contacts'' ''8'' ''delete'' None [dave, alice, bob]))
   \<and> status (new_change capture_ok ''contacts'' ''8'' ''delete'' None [dave, alice, bob]) = ''pending''
   \<and> successively (table_step code_edge)
         (history (push_pending_changes svc_on env_first_fails 10 [dave, alice, bob]))
   \<and> map (map status) (history (push_pending_changes svc_on env_first_fails 10 [dave, alice, bob]))
       = [[''failed'', ''pending'', ''pending''], [''failed'', ''syncing'', ''pending''],
          [''failed'', ''failed'', ''pending''], [''failed'', ''failed'', ''syncing''],
          [''failed'', ''failed'', ''synced'']]
   \<and> status dave \<noteq> ''pending''
   \<and> hd (rows (push_pending_changes svc_on env_first_fails 10 [dave, alice, bob])) = dave
   \<and> id_pk dave \<notin> id_pk ` set (select_pending [dave, alice, bob] 10)
   \<and> successively (table_step written_edge)
         (history (overlapped svc_on env_first_fails env_ok 10 [dave, alice, bob]))
   \<and> map (map status) (history (overlapped svc_on env_first_fails env_ok 10 [dave, alice, bob]))
       = [[''failed'', ''failed'', ''synced''], [''failed'', ''syncing'', ''synced''],
          [''failed'', ''synced'', ''synced''], [''failed'', ''synced'', ''syncing''],
          [''failed'', ''synced'', ''synced'']]"
proof -
  have pk: "primary_key [dave, alice, bob]"
    by (simp add: primary_key_def alice_def bob_def dave_def)
  have add: "add_to_queue svc_on capture_ok ''contacts'' ''8'' ''delete'' None [dave, alice, bob]
       = Inr ([dave, alice, bob] @ [new_change capture_ok ''contacts'' ''8'' ''delete'' None [dave, alice, bob]],
              Some (new_change capture_ok ''contacts'' ''8'' ''delete'' None [dave, alice, bob]))"
    by (simp add: add_to_queue_def is_enabled_def Let_def svc_on_def capture_ok_def)
  note T = C7_status_machine[OF pk, where svc = svc_on and cenv = capture_ok
      and tname = "''contacts''" and rid = "''8''" and op = "''delete''" and d = None
      and env = env_first_fails and limit = 10 and limit' = 10 and env' = env_ok]
  have created: "status (new_change capture_ok ''contacts'' ''8'' ''delete'' None [dave, alice, bob]) = ''pending''"
    using T add by blast
  have edges: "successively (table_step code_edge)
                 (history (push_pending_changes svc_on env_first_fails 10 [dave, alice, bob]))"
    using T by blast
  have hist: "map (map status) (history (push_pending_changes svc_on env_first_fails 10 [dave, alice, bob]))
       = [[''failed'', ''pending'', ''pending''], [''failed'', ''syncing'', ''pending''],
          [''failed'', ''failed'', ''pending''], [''failed'', ''failed'', ''syncing''],
          [''failed'', ''failed'', ''synced'']]"
    by (simp add: history_def batch_defs data_defs)
  have st: "status dave \<noteq> ''pending''" by (simp add: dave_def)
  have "list_all2 (\<lambda>r r'. status r = ''pending'' \<or> r' = r) [dave, alice, bob]
          (rows (push_pending_changes svc_on env_first_fails 10 [dave, alice, bob]))"
    using T by blast
  then have kept: "hd (rows (push_pending_changes svc_on env_first_fails 10 [dave, alice, bob])) = dave"
    using st by (auto simp: list_all2_Cons1)
  have "\<forall>r\<in>set [dave, alice, bob]. status r \<noteq> ''pending''
          \<longrightarrow> id_pk r \<notin> id_pk ` set (select_pending [dave, alice, bob] 10)"
    using T by blast
  then have unsel: "id_pk dave \<notin> id_pk ` set (select_pending [dave, alice, bob] 10)"
    using st by simp
  have over: "successively (table_step written_edge)
         (history (overlapped svc_on env_first_fails env_ok 10 [dave, alice, bob]))"
    using T by blast
  have over_hist: "map (map status) (history (overlapped svc_on env_first_fails env_ok 10 [dave, alice, bob]))
       = [[''failed'', ''failed'', ''synced''], [''failed'', ''syncing'', ''synced''],
          [''failed'', ''synced'', ''synced''], [''failed'', ''synced'', ''syncing''],
          [''failed'', ''synced'', ''synced'']]"
    by (simp add: overlapped_def history_def batch_defs data_defs)
  show ?thesis
    using pk add created edges hist st kept unsel over over_hist by (intro conjI)
qed

text \<open>
  The claim as stated fails on the edges: when the commit of the status syncing raises,
  the committed row goes from pending to failed and is never seen as syncing. It also
  fails on terminality when batches overlap: the outer batch holds a pending item, the
  inner batch marks its row synced, and the outer loop then moves that row from synced
  to syncing and hands the record to the remote a second time.
\<close>

theorem C7_counterexample:
  "map (map status) (history (push_pending_changes svc_on env_locked 10 [alice]))
     = [[''pending''], [''failed'']]
   \<and> \<not> successively (table_step spec_edge) (history (push_pending_changes svc_on env_locked 10 [alice]))
   \<and> map (map status) (history (overlapped svc_on env_ok env_ok 10 [bob]))
     = [[''synced''], [''syncing''], [''synced'']]
   \<and> calls (push_pending_changes svc_on env_ok 10 [bob]) = [2]
   \<and> calls (overlapped svc_on env_ok env_ok 10 [bob]) = [2]
   \<and> \<not> successively (table_step code_edge) (history (overlapped svc_on env_ok env_ok 10 [bob]))"
  by (simp add: overlapped_def history_def table_step_def code_edge_def spec_edge_def
        batch_defs data_defs)

subsection \<open>C8: a batch with nothing pending\<close>

text \<open>
  C8. A batch on a queue without pending rows leaves the queue as it is, commits
  nothing, calls the remote for nothing and returns pushed 0, failed 0, skipped 0. Hence
  a second batch, run on the queue that a first batch has left with every row synced,
  changes nothing and returns the all-zero statistics, whatever its limit and its
  environment.
\<close>

theorem C8_no_pending_no_change:
  "((\<forall>r\<in>set q. status r \<noteq> ''pending'') \<longrightarrow>
        rows (push_pending_changes svc env limit q) = q
      \<and> stats (push_pending_changes svc env limit q) = \<lparr>pushed = 0, failed = 0, skipped = 0\<rparr>
      \<and> commits (push_pending_changes svc env limit q) = []
      \<and> calls (push_pending_changes svc env limit q) = [])
   \<and> ((\<forall>r\<in>set (rows (push_pending_changes svc env limit q)). status r = ''synced'') \<longrightarrow>
        rows (push_pending_changes svc env' limit' (rows (push_pending_changes svc env limit q)))
          = rows (push_pending_changes svc env limit q)
      \<and> stats (push_pending_changes svc env' limit' (rows (push_pending_changes svc env limit q)))
          = \<lparr>pushed = 0, failed = 0, skipped = 0\<rparr>)"
proof (intro conjI impI)
  assume "\<forall>r\<in>set q. status r \<noteq> ''pending''"
  then have run: "push_pending_changes svc env limit q = start_batch q"
    by (rule no_pending_batch)
  show "rows (push_pending_changes svc env limit q) = q"
    "stats (push_pending_changes svc env limit q) = \<lparr>pushed = 0, failed = 0, skipped = 0\<rparr>"
    "commits (push_pending_changes svc env limit q) = []"
    "calls (push_pending_changes svc env limit q) = []"
    unfolding run by (simp_all add: start_batch_def zero_stats_def)
next
  let ?q1 = "rows (push_pending_changes svc env limit q)"
  assume "\<forall>r\<in>set ?q1. status r = ''synced''"
  then have "\<forall>r\<in>set ?q1. status r \<noteq> ''pending''" by simp
  then have run: "push_pending_changes svc env' limit' ?q1 = start_batch ?q1"
    by (rule no_pending_batch)
  show "rows (push_pending_changes svc env' limit' ?q1) = ?q1"
    "stats (push_pending_changes svc env' limit' ?q1) = \<lparr>pushed = 0, failed = 0, skipped = 0\<rparr>"
    unfolding run by (simp_all add: start_batch_def zero_stats_def)
qed

theorem C8_no_pending_no_change_witness:
  "map status (rows (push_pending_changes svc_on env_ok 10 [alice, bob])) = [''synced'', ''synced'']
   \<and> stats (push_pending_changes svc_on env_ok 10 [alice, bob]) = \<lparr>pushed = 2, failed = 0, skipped = 0\<rparr>
   \<and> rows (push_pending_changes svc_on env_timeout 10 (rows (push_pending_changes svc_on env_ok 10 [alice, bob])))
        = rows (push_pending_changes svc_on env_ok 10 [alice, bob])
   \<and> stats (push_pending_changes svc_on env_timeout 10 (rows (push_pending_changes svc_on env_ok 10 [alice, bob])))
        = \<lparr>pushed = 0, failed = 0, skipped = 0\<rparr>
   \<and> status (carol\<lparr>status := ''failed''\<rparr>) \<noteq> ''pending''
   \<and> rows (push_pending_changes svc_on env_ok 10 [carol\<lparr>status := ''failed''\<rparr>]) = [carol\<lparr>status := ''failed''\<rparr>]
   \<and> stats (push_pending_changes svc_on env_ok 10 [carol\<lparr>status := ''failed''\<rparr>]) = \<lparr>pushed = 0, failed = 0, skipped = 0\<rparr>"
proof -
  have first: "map status (rows (push_pending_changes svc_on env_ok 10 [alice, bob])) = [''synced'', ''synced'']"
    "stats (push_pending_changes svc_on env_ok 10 [alice, bob]) = \<lparr>pushed = 2, failed = 0, skipped = 0\<rparr>"
    by (simp_all add: batch_defs data_defs)
  have all_synced: "\<forall>r\<in>set (rows (push_pending_changes svc_on env_ok 10 [alice, bob])). status r = ''synced''"
    by (simp add: batch_defs data_defs)
  have nop: "\<forall>r\<in>set [carol\<lparr>status := ''failed''\<rparr>]. status r \<noteq> ''pending''"
    by simp
  note second = C8_no_pending_no_change[of "[alice, bob]" svc_on env_ok 10 env_timeout 10,
      THEN conjunct2, THEN mp, OF all_synced]
  note third = C8_no_pending_no_change[of "[carol\<lparr>status := ''failed''\<rparr>]" svc_on env_ok 10,
      THEN conjunct1, THEN mp, OF nop]
  have st: "status (carol\<lparr>status := ''failed''\<rparr>) \<noteq> ''pending''" by simp
  show ?thesis
    using first second third st by (intro conjI) (simp_all only: simp_thms)
qed

subsection \<open>C9: the status report\<close>

text \<open>
  C9, as amended. With the engine enabled, \<open>get_status\<close> returns \<open>enabled\<close>
  true, the flag \<open>is_syncing\<close> of the manager, and the counts pending, syncing, failed and synced, each the number of rows of
  the queue with that status, and \<open>total\<close> their sum, which is the number of rows
  when every row has one of the four statuses. With the engine disabled it returns the
  dictionary with the single key \<open>enabled\<close>, false, and no counts.
\<close>

theorem C9_status_when_enabled:
  "(is_enabled (sync_service m) \<longrightarrow>
        get_status m q ''enabled'' = Some (PyBool True)
      \<and> get_status m q ''is_syncing'' = Some (PyBool (is_syncing m))
      \<and> get_status m q ''pending'' = Some (PyInt (int (count_list (map status q) ''pending'')))
      \<and> get_status m q ''syncing'' = Some (PyInt (int (count_list (map status q) ''syncing'')))
      \<and> get_status m q ''failed'' = Some (PyInt (int (count_list (map status q) ''failed'')))
      \<and> get_status m q ''synced'' = Some (PyInt (int (count_list (map status q) ''synced'')))
      \<and> get_status m q ''total'' =
          Some (PyInt (int (count_list (map status q) ''pending'')
                     + int (count_list (map status q) ''syncing'')
                     + int (count_list (map status q) ''failed'')
                     + int (count_list (map status q) ''synced''))))
   \<and> (is_enabled (sync_service m)
        \<and> (\<forall>r\<in>set q. status r = ''pending'' \<or> status r = ''syncing'' \<or> status r = ''failed''
                        \<or> status r = ''synced'')
        \<longrightarrow> get_status m q ''total'' = Some (PyInt (int (length q))))
   \<and> (\<not> is_enabled (sync_service m) \<longrightarrow> get_status m q = [''enabled'' \<mapsto> PyBool False])"
proof (intro conjI impI)
  assume en: "is_enabled (sync_service m)"
  show "get_status m q ''enabled'' = Some (PyBool True)"
    using en by (simp add: get_status_def)
  show "get_status m q ''is_syncing'' = Some (PyBool (is_syncing m))"
    using en by (simp add: get_status_def)
  show "get_status m q ''pending'' = Some (PyInt (int (count_list (map status q) ''pending'')))"
    using en by (simp add: get_status_def get_queue_status_def Let_def count_status_count_list)
  show "get_status m q ''syncing'' = Some (PyInt (int (count_list (map status q) ''syncing'')))"
    using en by (simp add: get_status_def get_queue_status_def Let_def count_status_count_list)
  show "get_status m q ''failed'' = Some (PyInt (int (count_list (map status q) ''failed'')))"
    using en by (simp add: get_status_def get_queue_status_def Let_def count_status_count_list)
  show "get_status m q ''synced'' = Some (PyInt (int (count_list (map status q) ''synced'')))"
    using en by (simp add: get_status_def get_queue_status_def Let_def count_status_count_list)
  show "get_status m q ''total'' =
          Some (PyInt (int (count_list (map status q) ''pending'')
                     + int (count_list (map status q) ''syncing'')
                     + int (count_list (map status q) ''failed'')
                     + int (count_list (map status q) ''synced'')))"
    using en by (simp add: get_status_def get_queue_status_def Let_def count_status_count_list)
next
  assume a: "is_enabled (sync_service m)
        \<and> (\<forall>r\<in>set q. status r = ''pending'' \<or> status r = ''syncing'' \<or> status r = ''failed''
                        \<or> status r = ''synced'')"
  then have "get_status m q ''total'' =
      Some (PyInt (count_status q ''pending'' + count_status q ''syncing''
                   + count_status q ''failed'' + count_status q ''synced''))"
    by (simp add: get_status_def get_queue_status_def Let_def)
  then show "get_status m q ''total'' = Some (PyInt (int (length q)))"
    using count_status_total a by simp
next
  assume "\<not> is_enabled (sync_service m)"
  then show "get_status m q = [''enabled'' \<mapsto> PyBool False]"
    by (simp add: get_status_def)
qed

theorem C9_status_when_enabled_witness:
  "is_enabled (sync_service \<lparr>sync_service = svc_on, is_syncing = False\<rparr>)
   \<and> get_status \<lparr>sync_service = svc_on, is_syncing = False\<rparr> [alice, bob\<lparr>status := ''synced''\<rparr>] ''enabled''
        = Some (PyBool True)
   \<and> get_status \<lparr>sync_service = svc_on, is_syncing = False\<rparr> [alice, bob\<lparr>status := ''synced''\<rparr>] ''pending''
        = Some (PyInt 1)
   \<and> get_status \<lparr>sync_service = svc_on, is_syncing = False\<rparr> [alice, bob\<lparr>status := ''synced''\<rparr>] ''synced''
        = Some (PyInt 1)
   \<and> get_status \<lparr>sync_service = svc_on, is_syncing = False\<rparr> [alice, bob\<lparr>status := ''synced''\<rparr>] ''total''
        = Some (PyInt 2)
   \<and> \<not> is_enabled (sync_service \<lparr>sync_service = svc_off, is_syncing = False\<rparr>)
   \<and> get_status \<lparr>sync_service = svc_off, is_syncing = False\<rparr> [alice] = [''enabled'' \<mapsto> PyBool False]"
proof -
  let ?m = "\<lparr>sync_service = svc_on, is_syncing = False\<rparr>"
  let ?off = "\<lparr>sync_service = svc_off, is_syncing = False\<rparr>"
  let ?q = "[alice, bob\<lparr>status := ''synced''\<rparr>]"
  have h1: "is_enabled (sync_service ?m)" by (simp add: is_enabled_def svc_on_def)
  have h2: "\<not> is_enabled (sync_service ?off)" by (simp add: is_enabled_def svc_off_def)
  have st: "map status ?q = [''pending'', ''synced'']" by (simp add: alice_def)
  note on = C9_status_when_enabled[of ?m ?q, THEN conjunct1, THEN mp, OF h1]
  note off = C9_status_when_enabled[of ?off "[alice]", THEN conjunct2, THEN conjunct2, THEN mp, OF h2]
  show ?thesis
    using h1 h2 on off unfolding st by simp
qed

text \<open>The claim as stated fails when the engine is disabled: there are no counts.\<close>

theorem C9_counterexample:
  "get_status \<lparr>sync_service = svc_off, is_syncing = False\<rparr> [alice] ''pending'' = None
   \<and> get_status \<lparr>sync_service = svc_off, is_syncing = False\<rparr> [alice] ''total'' = None
   \<and> dom (get_status \<lparr>sync_service = svc_off, is_syncing = False\<rparr> [alice]) = {''enabled''}"
  by (simp add: get_status_def is_enabled_def svc_off_def)

subsection \<open>C10: nothing is ever skipped\<close>

text \<open>
  C10. Whatever the limit, the queue, the service and the environment (remote results
  and commit results), the statistics returned by \<open>push_pending_changes\<close> have
  \<open>skipped = 0\<close>.
\<close>

theorem C10_skipped_is_zero:
  "skipped (stats (push_pending_changes svc env limit q)) = 0"
  by (simp add: push_pending_changes_def start_batch_def zero_stats_def skipped_push_loop
           split: option.splits)

end
